theory Spec2Isabelle
  imports Main
begin

section \<open>Gates, gate objects and errors\<close>

text \<open>
  The development embeds \<^verbatim>\<open>src/qibo/tensorflow/distcircuit.py\<close>: the class
  \<^verbatim>\<open>DeviceQueues\<close> (partition, queue transformer, wave builder) and the parts of
  \<^verbatim>\<open>TensorflowDistributedCircuit\<close> that plan and walk the waves.

  Every \<^verbatim>\<open>raise\<close>, failed \<^verbatim>\<open>assert\<close> and failing built-in of the source is a value of
  \<open>error\<close>:
  \<^item> \<open>OnlySwapSupported\<close>: ValueError "Only SWAP gates are supported for global qubits."
  \<^item> \<open>SwapBetweenGlobals\<close>: ValueError "SWAPs between global qubits are not allowed."
    (the specification's InvalidGlobalSwap covers these two messages)
  \<^item> \<open>InsufficientQubits\<close>: ValueError "Insufficient qubits to use for global in
    distributed circuit."
  \<^item> \<open>InvalidPartition\<close>: ValueError "Invalid number of global qubits ..."
  \<^item> \<open>InvalidConfig\<close>: ValueError "Number of calculation devices should be a power of 2"
  \<^item> \<open>PlanEmpty\<close>: RuntimeError "No gates available to set for distributed run."
  \<^item> \<open>AssertionError\<close>, \<open>KeyError\<close>, \<open>IndexError\<close>, \<open>StopIteration\<close>,
    \<open>UnboundLocalError\<close>, \<open>NotInList\<close> (the ValueError of \<^verbatim>\<open>list.index\<close>): the
    exceptions of Python's own operations.
\<close>

datatype error =
    OnlySwapSupported
  | SwapBetweenGlobals
  | InsufficientQubits
  | InvalidPartition
  | InvalidConfig
  | PlanEmpty
  | AssertionError
  | KeyError
  | IndexError
  | StopIteration
  | UnboundLocalError
  | NotInList

text \<open>
  The gate classes are not part of the file; the code only looks at a gate's class
  (\<^verbatim>\<open>isinstance\<close> against \<^verbatim>\<open>SWAP\<close>, \<^verbatim>\<open>M\<close>, \<^verbatim>\<open>VariationalLayer\<close>, \<^verbatim>\<open>CallbackGate\<close>), at its
  target and control qubits, at the attribute \<^verbatim>\<open>is_special_gate\<close>, and it writes the
  attributes \<^verbatim>\<open>swap_reset\<close>, \<^verbatim>\<open>nqubits\<close> and \<^verbatim>\<open>original_gate\<close>. Qubit ids are natural
  numbers.
\<close>

datatype gate_kind = SWAP | M | VariationalLayer | CallbackGate | Flatten | Unitary string

type_synonym ref = nat

record gate =
  kind :: gate_kind
  target_qubits :: "nat list"
  control_qubits :: "nat list"
  is_special_gate :: bool
  swap_reset :: "(nat \<times> nat) list option"
  gate_nqubits :: "int option"
  original_gate :: "ref option"

text \<open>
  Modelled from the spec: \<^verbatim>\<open>set_targets_and_controls(g, T, C)\<close> of the gate interface,
  which is not in the source tree; it stores the two tuples in the gate.
\<close>

definition set_targets_and_controls :: "nat list \<Rightarrow> nat list \<Rightarrow> gate \<Rightarrow> gate" where
  "set_targets_and_controls T C g = g\<lparr>target_qubits := T, control_qubits := C\<rparr>"

text \<open>
  Modelled from the spec: the factory \<^verbatim>\<open>make_swap(a, b)\<close> (\<^verbatim>\<open>gate_module.SWAP(a, b)\<close> in the
  code): a fresh SWAP gate on the two targets, with no controls and no attribute set.
\<close>

definition make_SWAP :: "nat \<Rightarrow> nat \<Rightarrow> gate" where
  "make_SWAP a b = \<lparr>kind = SWAP, target_qubits = [a, b], control_qubits = [],
     is_special_gate = False, swap_reset = None, gate_nqubits = None, original_gate = None\<rparr>"

text \<open>
  Gates are Python objects, and the planner mutates them in place. A gate queue is a
  list of references into a store of gate objects; \<open>next_ref\<close> is the first address
  that no object occupies yet.
\<close>

record heap =
  objs :: "ref \<Rightarrow> gate"
  next_ref :: ref

definition new_object :: "heap \<Rightarrow> gate \<Rightarrow> heap \<times> ref" where
  "new_object h g = (h\<lparr>objs := (objs h)(next_ref h := g), next_ref := Suc (next_ref h)\<rparr>, next_ref h)"

definition update_object :: "heap \<Rightarrow> ref \<Rightarrow> (gate \<Rightarrow> gate) \<Rightarrow> heap" where
  "update_object h r f = h\<lparr>objs := (objs h)(r := f (objs h r))\<rparr>"

text \<open>
  What the code takes from outside the repository, as parameters:
  \<^item> \<open>commutes\<close>: \<^verbatim>\<open>skipped_gate.commutes(gate)\<close> of the gate algebra;
  \<^item> \<open>argsort\<close>: numpy's \<^verbatim>\<open>counter.argsort()\<close> with its default sorting kind;
  \<^item> \<open>set_iter\<close>: the order in which Python iterates over a set of qubit ids;
  \<^item> \<open>set_pop\<close>: the element \<^verbatim>\<open>set.pop()\<close> removes.
\<close>

record env =
  commutes :: "gate \<Rightarrow> gate \<Rightarrow> bool"
  argsort :: "int list \<Rightarrow> nat list"
  set_iter :: "nat set \<Rightarrow> nat list"
  set_pop :: "nat set \<Rightarrow> nat"

section \<open>DeviceQueues: the partition\<close>

datatype special = SpecialGate ref | GlobalSwap nat nat

record dq =
  nqubits :: nat
  ndevices :: nat
  nglobal :: nat
  nlocal :: int
  queues :: "gate list list list"
  special_queue :: "special list"
  global_qubits_set :: "nat set"
  global_qubits_list :: "nat list"
  local_qubits :: "nat list"
  global_qubits_reduced :: "nat \<rightharpoonup> nat"
  local_qubits_reduced :: "nat \<rightharpoonup> nat"
  swaps_list :: "(nat \<times> nat) list"
  device_to_ids :: "(string \<times> nat list) list"
  ids_to_device :: "string option list"

text \<open>\<^verbatim>\<open>list.index(x)\<close>: the first position of \<open>x\<close>, or a ValueError.\<close>

fun index_from :: "nat list \<Rightarrow> nat \<Rightarrow> nat \<Rightarrow> nat option" where
  "index_from [] x i = None"
| "index_from (y # ys) x i = (if y = x then Some i else index_from ys x (Suc i))"

definition index_of :: "nat list \<Rightarrow> nat \<Rightarrow> nat option" where
  "index_of xs x = index_from xs x 0"

text \<open>
  \<^verbatim>\<open>reduction_number\<close>: the loop over \<^verbatim>\<open>enumerate(self.global_qubits_list)\<close> returns the
  index of the first global id greater than \<open>q\<close>; when the loop ends it returns
  \<^verbatim>\<open>i + 1\<close>, the length of the list. On an empty list \<^verbatim>\<open>i\<close> was never bound.
\<close>

fun reduction_number_loop :: "nat list \<Rightarrow> nat \<Rightarrow> nat \<Rightarrow> nat" where
  "reduction_number_loop [] q i = i"
| "reduction_number_loop (gq # rest) q i =
     (if gq > q then i else reduction_number_loop rest q (Suc i))"

definition reduction_number_of :: "nat list \<Rightarrow> nat \<Rightarrow> error + nat" where
  "reduction_number_of gl q =
     (if gl = [] then Inl UnboundLocalError else Inr (reduction_number_loop gl q 0))"

definition reduction_number :: "dq \<Rightarrow> nat \<Rightarrow> error + nat" where
  "reduction_number self q = reduction_number_of (global_qubits_list self) q"

text \<open>
  \<^verbatim>\<open>q - self.reduction_number(q)\<close> is a Python integer; the gate interface of this
  model stores natural numbers, and \<open>reduced_ids_nonneg\<close> below shows that the difference
  is never negative for the qubits the code reduces (the ones outside the global set).
\<close>

fun reduce_ids :: "nat list \<Rightarrow> nat list \<Rightarrow> error + nat list" where
  "reduce_ids gl [] = Inr []"
| "reduce_ids gl (q # qs) =
     (case reduction_number_of gl q of
        Inl e \<Rightarrow> Inl e
      | Inr n \<Rightarrow> (case reduce_ids gl qs of
                   Inl e \<Rightarrow> Inl e
                 | Inr rs \<Rightarrow> Inr (nat (int q - int n) # rs)))"

text \<open>\<^verbatim>\<open>_ids\<close>: consecutive ranges of piece indices, one per device name.\<close>

fun ids_from :: "nat \<Rightarrow> (string \<times> nat) list \<Rightarrow> (string \<times> nat list) list" where
  "ids_from start [] = []"
| "ids_from start ((device, n) # rest) =
     (device, [start ..< start + n]) # ids_from (start + n) rest"

fun fill_ids_to_device :: "(string \<times> nat list) list \<Rightarrow> string option list \<Rightarrow> error + string option list" where
  "fill_ids_to_device [] tbl = Inr tbl"
| "fill_ids_to_device ((device, ids) # rest) tbl =
     (if list_all (\<lambda>i. i < length tbl) ids
      then fill_ids_to_device rest (fold (\<lambda>i t. t[i := Some device]) ids tbl)
      else Inl IndexError)"

text \<open>
  \<^verbatim>\<open>DeviceQueues.__init__\<close>. The circuit passes its \<^verbatim>\<open>nqubits\<close>, \<^verbatim>\<open>ndevices\<close>, \<^verbatim>\<open>nglobal\<close>,
  \<^verbatim>\<open>nlocal\<close> and \<^verbatim>\<open>calc_devices\<close> (a dict from device name to a count, here an association
  list in insertion order; building \<^verbatim>\<open>device_to_ids\<close> as a dict keeps the last entry of
  a repeated name, which a dict \<^verbatim>\<open>calc_devices\<close> cannot have).
\<close>

definition DeviceQueues_init ::
  "nat \<Rightarrow> nat \<Rightarrow> nat \<Rightarrow> int \<Rightarrow> (string \<times> nat) list \<Rightarrow> nat set \<Rightarrow> error + dq" where
  "DeviceQueues_init n d ng nl calc_devices global_qubits =
     (let gl = sorted_list_of_set global_qubits;
          ll = filter (\<lambda>q. q \<notin> global_qubits) [0 ..< n];
          dti = ids_from 0 calc_devices
      in case reduce_ids gl ll of
           Inl e \<Rightarrow> Inl e
         | Inr reduced \<Rightarrow>
            (case fill_ids_to_device dti (replicate d None) of
               Inl e \<Rightarrow> Inl e
             | Inr itd \<Rightarrow>
                Inr \<lparr>nqubits = n, ndevices = d, nglobal = ng, nlocal = nl,
                    queues = [], special_queue = [],
                    global_qubits_set = global_qubits,
                    global_qubits_list = gl,
                    local_qubits = ll,
                    global_qubits_reduced = index_of gl,
                    local_qubits_reduced = map_of (zip ll reduced),
                    swaps_list = [],
                    device_to_ids = dti,
                    ids_to_device = itd\<rparr>))"

text \<open>
  \<^verbatim>\<open>_create_reduced_gate\<close>: a shallow copy of the gate whose targets are reduced, whose
  controls are the reduced non-global controls, and which points back to the original.
\<close>

definition create_reduced_gate :: "dq \<Rightarrow> heap \<Rightarrow> ref \<Rightarrow> error + gate" where
  "create_reduced_gate self h r =
     (let calc_gate = objs h r in
      case reduce_ids (global_qubits_list self) (target_qubits calc_gate) of
        Inl e \<Rightarrow> Inl e
      | Inr new_target_qubits \<Rightarrow>
         (case reduce_ids (global_qubits_list self)
                 (filter (\<lambda>q. q \<notin> global_qubits_set self) (control_qubits calc_gate)) of
            Inl e \<Rightarrow> Inl e
          | Inr new_control_qubits \<Rightarrow>
             Inr ((set_targets_and_controls new_target_qubits new_control_qubits calc_gate)
                    \<lparr>original_gate := Some r\<rparr>)))"

section \<open>DeviceQueues: counting and transforming the queue\<close>

text \<open>
  \<^verbatim>\<open>counter\<close> is a numpy array of 32-bit integers, here a list of integers: its entries
  stay between minus and plus the number of target occurrences in the queue, far from
  the 32-bit range. Reading or writing it at an index beyond its length is an IndexError.
\<close>

fun counter_add :: "int \<Rightarrow> nat list \<Rightarrow> int list \<Rightarrow> error + int list" where
  "counter_add d [] counter = Inr counter"
| "counter_add d (qubit # rest) counter =
     (if qubit < length counter
      then counter_add d rest (counter[qubit := counter ! qubit + d])
      else Inl IndexError)"

fun count_loop :: "heap \<Rightarrow> ref list \<Rightarrow> int list \<Rightarrow> error + int list" where
  "count_loop h [] counter = Inr counter"
| "count_loop h (r # rest) counter =
     (case counter_add 1 (target_qubits (objs h r)) counter of
        Inl e \<Rightarrow> Inl e
      | Inr counter' \<Rightarrow> count_loop h rest counter')"

definition count :: "heap \<Rightarrow> ref list \<Rightarrow> nat \<Rightarrow> error + int list" where
  "count h queue n = count_loop h queue (replicate n 0)"

text \<open>
  The state the transformer works on: the \<^verbatim>\<open>DeviceQueues\<close> object itself, the store of
  gate objects, the output list \<^verbatim>\<open>queue\<close> and the array \<^verbatim>\<open>counter\<close>.
\<close>

record tstate =
  self_dq :: dq
  gates :: heap
  queue :: "ref list"
  counter :: "int list"

text \<open>
  The first loop of \<^verbatim>\<open>_transform\<close>, over \<^verbatim>\<open>remaining_queue\<close>; the second argument is
  \<^verbatim>\<open>new_remaining_queue\<close>. For each gate: \<open>tag_special\<close> is the assignment of
  \<^verbatim>\<open>swap_reset\<close> to a special gate, \<open>accepts\<close> the value of \<^verbatim>\<open>accept\<close> after the inner loop
  over the skipped gates (the loop stops at the first gate that does not commute, so
  \<^verbatim>\<open>accept\<close> ends as the conjunction).
\<close>

definition tag_special :: "dq \<Rightarrow> heap \<Rightarrow> ref \<Rightarrow> heap" where
  "tag_special self h r =
     (if is_special_gate (objs h r)
      then update_object h r (\<lambda>g. g\<lparr>swap_reset := Some (swaps_list self)\<rparr>)
      else h)"

definition accepts :: "env \<Rightarrow> dq \<Rightarrow> heap \<Rightarrow> ref list \<Rightarrow> ref \<Rightarrow> bool" where
  "accepts E self h new_remaining_queue r =
     (let gate = objs h r;
          global_targets = set (target_qubits gate) \<inter> global_qubits_set self
      in ((kind gate = SWAP \<and> card global_targets = 1) \<or> global_targets = {})
         \<and> list_all (\<lambda>skipped_gate. commutes E (objs h skipped_gate) gate) new_remaining_queue)"

fun accept_loop :: "env \<Rightarrow> ref list \<Rightarrow> ref list \<Rightarrow> tstate \<Rightarrow> error + (tstate \<times> ref list)" where
  "accept_loop E [] new_remaining_queue s = Inr (s, new_remaining_queue)"
| "accept_loop E (r # rest) new_remaining_queue s =
     (let h = tag_special (self_dq s) (gates s) r
      in if accepts E (self_dq s) h new_remaining_queue r
         then (case counter_add (- 1) (target_qubits (objs h r)) (counter s) of
                 Inl e \<Rightarrow> Inl e
               | Inr counter' \<Rightarrow>
                   accept_loop E rest new_remaining_queue
                     (s\<lparr>gates := h, queue := queue s @ [r], counter := counter'\<rparr>))
         else accept_loop E rest (new_remaining_queue @ [r]) (s\<lparr>gates := h\<rparr>))"

text \<open>
  "Find which qubits to swap": the head of \<^verbatim>\<open>new_remaining_queue\<close> gives \<^verbatim>\<open>target_set\<close> and
  \<^verbatim>\<open>global_targets\<close>; for a SWAP the assertion and
  \<^verbatim>\<open>global_targets.remove(target_set.pop())\<close> follow.
\<close>

definition swap_targets :: "env \<Rightarrow> dq \<Rightarrow> gate \<Rightarrow> error + (nat set \<times> nat set)" where
  "swap_targets E self gate =
     (let target_set = set (target_qubits gate);
          global_targets = target_set \<inter> global_qubits_set self
      in if kind gate = SWAP
         then (if card global_targets \<noteq> 2 then Inl AssertionError
               else if target_set = {} then Inl KeyError
               else let p = set_pop E target_set
                    in if p \<in> global_targets
                       then Inr (target_set - {p}, global_targets - {p})
                       else Inl KeyError)
         else Inr (target_set, global_targets))"

text \<open>
  The loop \<^verbatim>\<open>for q in global_targets\<close>: \<open>available_swaps\<close> is what is left of the
  generator, \<open>qubit_map\<close> the dict of the swaps. \<open>insert_swap\<close> is the rest of the loop
  body: the pair joins \<^verbatim>\<open>swaps_list\<close>, a new SWAP gate joins \<^verbatim>\<open>queue\<close>, and the two
  counters are exchanged (an IndexError when one of them is out of range).
\<close>

definition insert_swap :: "nat \<Rightarrow> nat \<Rightarrow> tstate \<Rightarrow> tstate" where
  "insert_swap q qs s =
     (let (h, r) = new_object (gates s) (make_SWAP q qs); c = counter s
      in s\<lparr>self_dq := (self_dq s)\<lparr>swaps_list := swaps_list (self_dq s) @ [(min q qs, max q qs)]\<rparr>,
           gates := h, queue := queue s @ [r],
           counter := c[q := c ! qs, qs := c ! q]\<rparr>)"

fun swap_loop :: "nat list \<Rightarrow> nat list \<Rightarrow> (nat \<rightharpoonup> nat) \<Rightarrow> tstate \<Rightarrow> error + ((nat \<rightharpoonup> nat) \<times> tstate)" where
  "swap_loop [] available_swaps qubit_map s = Inr (qubit_map, s)"
| "swap_loop (q # rest) [] qubit_map s = Inl StopIteration"
| "swap_loop (q # rest) (qs # available_swaps) qubit_map s =
     (if q < length (counter s) \<and> qs < length (counter s)
      then swap_loop rest available_swaps (qubit_map(q \<mapsto> qs, qs \<mapsto> q)) (insert_swap q qs s)
      else Inl IndexError)"

definition find_swaps :: "env \<Rightarrow> ref list \<Rightarrow> tstate \<Rightarrow> error + ((nat \<rightharpoonup> nat) \<times> tstate)" where
  "find_swaps E new_remaining_queue s =
     (case swap_targets E (self_dq s) (objs (gates s) (hd new_remaining_queue)) of
        Inl e \<Rightarrow> Inl e
      | Inr (target_set, global_targets) \<Rightarrow>
          swap_loop (set_iter E global_targets)
            (filter (\<lambda>q. q \<notin> global_qubits_set (self_dq s) \<union> target_set) (argsort E (counter s)))
            Map.empty s)"

text \<open>"Modify gates to take into account the swaps": every gate object of
  \<^verbatim>\<open>new_remaining_queue\<close> is rewritten in place, once per occurrence in the list.\<close>

definition remap_qubit :: "(nat \<rightharpoonup> nat) \<Rightarrow> nat \<Rightarrow> nat" where
  "remap_qubit qubit_map q = (case qubit_map q of Some q' \<Rightarrow> q' | None \<Rightarrow> q)"

definition remap_gate :: "(nat \<rightharpoonup> nat) \<Rightarrow> gate \<Rightarrow> gate" where
  "remap_gate qubit_map gate =
     set_targets_and_controls (map (remap_qubit qubit_map) (target_qubits gate))
       (map (remap_qubit qubit_map) (control_qubits gate)) gate"

fun remap_loop :: "(nat \<rightharpoonup> nat) \<Rightarrow> ref list \<Rightarrow> heap \<Rightarrow> heap" where
  "remap_loop qubit_map [] h = h"
| "remap_loop qubit_map (r # rest) h =
     remap_loop qubit_map rest (update_object h r (remap_gate qubit_map))"

text \<open>
  \<^verbatim>\<open>_transform\<close>. Each call of the Python method takes one unit of fuel, so the fuel
  bounds the depth of the recursion; \<open>None\<close> says that the depth was not enough.
\<close>

fun transform_rec :: "nat \<Rightarrow> env \<Rightarrow> ref list \<Rightarrow> tstate \<Rightarrow> (error + tstate) option" where
  "transform_rec 0 E remaining_queue s = None"
| "transform_rec (Suc fuel) E remaining_queue s =
     (case accept_loop E remaining_queue [] s of
        Inl e \<Rightarrow> Some (Inl e)
      | Inr (s1, new_remaining_queue) \<Rightarrow>
          if new_remaining_queue = [] then Some (Inr s1)
          else (case find_swaps E new_remaining_queue s1 of
                  Inl e \<Rightarrow> Some (Inl e)
                | Inr (qubit_map, s2) \<Rightarrow>
                    transform_rec fuel E new_remaining_queue
                      (s2\<lparr>gates := remap_loop qubit_map new_remaining_queue (gates s2)\<rparr>)))"

text \<open>The tail of \<^verbatim>\<open>transform\<close>: one new SWAP per recorded pair, last pair first.\<close>

fun extend_swaps :: "(nat \<times> nat) list \<Rightarrow> heap \<Rightarrow> ref list \<Rightarrow> heap \<times> ref list" where
  "extend_swaps [] h new_queue = (h, new_queue)"
| "extend_swaps ((a, b) # ps) h new_queue =
     (let (h', r) = new_object h (make_SWAP a b) in extend_swaps ps h' (new_queue @ [r]))"

definition transform ::
  "nat \<Rightarrow> env \<Rightarrow> dq \<Rightarrow> heap \<Rightarrow> ref list \<Rightarrow> int list option \<Rightarrow> (error + tstate) option" where
  "transform fuel E self h q counter_arg =
     (case (case counter_arg of None \<Rightarrow> count h q (nqubits self) | Some c \<Rightarrow> Inr c) of
        Inl e \<Rightarrow> Some (Inl e)
      | Inr c \<Rightarrow>
         (case transform_rec fuel E q \<lparr>self_dq = self, gates = h, queue = [], counter = c\<rparr> of
            None \<Rightarrow> None
          | Some (Inl e) \<Rightarrow> Some (Inl e)
          | Some (Inr s) \<Rightarrow>
             (let (h', new_queue) = extend_swaps (rev (swaps_list (self_dq s))) (gates s) (queue s)
              in Some (Inr (s\<lparr>gates := h', queue := new_queue\<rparr>)))))"

section \<open>DeviceQueues: building the waves\<close>

text \<open>
  \<^verbatim>\<open>bool((i // (2 ** ic)) % 2)\<close>. For a negative \<^verbatim>\<open>ic\<close> Python computes \<^verbatim>\<open>2 ** ic\<close> as a
  float, the quotient is an even number and the flag is false.
\<close>

definition piece_bit :: "nat \<Rightarrow> int \<Rightarrow> bool" where
  "piece_bit i ic = (if ic < 0 then False else (i div 2 ^ nat ic) mod 2 \<noteq> 0)"

text \<open>
  The loop over the global controls of a gate, for piece \<open>i\<close>: \<^verbatim>\<open>flag\<close> starts true, is
  overwritten with the bit of each control, and the loop breaks at the first false.
\<close>

fun flag_loop :: "dq \<Rightarrow> nat \<Rightarrow> nat list \<Rightarrow> error + bool" where
  "flag_loop self i [] = Inr True"
| "flag_loop self i (control # rest) =
     (case index_of (global_qubits_list self) control of
        None \<Rightarrow> Inl NotInList
      | Some k \<Rightarrow>
          (let ic = int (nglobal self) - int k - 1
           in if piece_bit i ic then flag_loop self i rest else Inr False))"

fun ids_loop :: "env \<Rightarrow> dq \<Rightarrow> gate \<Rightarrow> gate \<Rightarrow> nat list \<Rightarrow> gate list list \<Rightarrow> error + gate list list" where
  "ids_loop E self gate calc_gate [] wave = Inr wave"
| "ids_loop E self gate calc_gate (i # ids) wave =
     (case flag_loop self i (set_iter E (set (control_qubits gate) \<inter> global_qubits_set self)) of
        Inl e \<Rightarrow> Inl e
      | Inr flag \<Rightarrow>
          if flag
          then (if i < length wave
                then ids_loop E self gate calc_gate ids (wave[i := wave ! i @ [calc_gate]])
                else Inl IndexError)
          else ids_loop E self gate calc_gate ids wave)"

fun device_loop :: "env \<Rightarrow> dq \<Rightarrow> heap \<Rightarrow> ref \<Rightarrow> (string \<times> nat list) list \<Rightarrow> gate list list \<Rightarrow> error + gate list list" where
  "device_loop E self h r [] wave = Inr wave"
| "device_loop E self h r ((device, ids) # rest) wave =
     (case create_reduced_gate self h r of
        Inl e \<Rightarrow> Inl e
      | Inr calc_gate \<Rightarrow>
          (case ids_loop E self (objs h r) (calc_gate\<lparr>gate_nqubits := Some (nlocal self)\<rparr>) ids wave of
             Inl e \<Rightarrow> Inl e
           | Inr wave' \<Rightarrow> device_loop E self h r rest wave'))"

text \<open>
  \<^verbatim>\<open>create\<close>, one gate of the queue at a time: a gate without targets is a special gate,
  a gate with a global target must be a SWAP with exactly one, and any other gate goes
  to the last wave, which is opened when there is none or the last one is empty.
\<close>

fun create :: "env \<Rightarrow> ref list \<Rightarrow> dq \<times> heap \<Rightarrow> error + dq \<times> heap" where
  "create E [] (self, h) = Inr (self, h)"
| "create E (r # rest) (self, h) =
     (let gate = objs h r;
          global_qubits = set (target_qubits gate) \<inter> global_qubits_set self
      in if target_qubits gate = []
         then create E rest
                (self\<lparr>special_queue := special_queue self @ [SpecialGate r],
                      queues := queues self @ [[]]\<rparr>,
                 update_object h r (\<lambda>g. g\<lparr>gate_nqubits := Some (int (nqubits self))\<rparr>))
         else if global_qubits \<noteq> {}
         then (if kind gate \<noteq> SWAP then Inl OnlySwapSupported
               else if card global_qubits > 1 then Inl SwapBetweenGlobals
               else (let global_qubit = the_elem global_qubits;
                         local_qubit = hd (target_qubits gate)
                     in if local_qubit = global_qubit
                        then (case tl (target_qubits gate) of
                                [] \<Rightarrow> Inl IndexError
                              | local_qubit' # _ \<Rightarrow>
                                  create E rest
                                    (self\<lparr>special_queue := special_queue self @ [GlobalSwap global_qubit local_qubit'],
                                          queues := queues self @ [[]]\<rparr>, h))
                        else create E rest
                               (self\<lparr>special_queue := special_queue self @ [GlobalSwap global_qubit local_qubit],
                                     queues := queues self @ [[]]\<rparr>, h)))
         else (let qs = (if queues self = [] \<or> last (queues self) = []
                         then queues self @ [replicate (ndevices self) []]
                         else queues self)
               in case device_loop E self h r (device_to_ids self) (last qs) of
                    Inl e \<Rightarrow> Inl e
                  | Inr wave \<Rightarrow> create E rest (self\<lparr>queues := butlast qs @ [wave]\<rparr>, h)))"

section \<open>TensorflowDistributedCircuit\<close>

text \<open>
  The fields of the circuit that planning and the swap engine read or write. \<open>c_queue\<close>
  is the gate queue of the base circuit, \<open>c_queues\<close> the \<^verbatim>\<open>DeviceQueues\<close> object
  (\<^verbatim>\<open>self.queues\<close>, \<open>None\<close> until the global qubits are set), \<open>pieces\<close> the state pieces,
  whose content is opaque here.
\<close>

record 'p circuit =
  c_nqubits :: nat
  c_ndevices :: nat
  c_nglobal :: nat
  c_nlocal :: int
  memory_device :: string
  calc_devices :: "(string \<times> nat) list"
  c_queue :: "ref list"
  c_queues :: "dq option"
  pieces :: "'p list option"
  transpose_order :: "nat list"
  reverse_transpose_order :: "nat list"

text \<open>
  \<^verbatim>\<open>__init__\<close>: the number of logical devices must be a power of two greater than one.
  \<open>exact_log2\<close> is \<^verbatim>\<open>np.log2\<close> followed by \<^verbatim>\<open>is_integer\<close>, which is exact for the
  device counts a double represents exactly.
\<close>

fun exact_log2 :: "nat \<Rightarrow> nat option" where
  "exact_log2 n =
     (if n = 0 then None
      else if n = 1 then Some 0
      else if n mod 2 = 1 then None
      else map_option Suc (exact_log2 (n div 2)))"

definition circuit_init :: "nat \<Rightarrow> (string \<times> nat) list \<Rightarrow> string \<Rightarrow> error + 'p circuit" where
  "circuit_init n accelerators memory =
     (let d = sum_list (map snd accelerators) in
      case exact_log2 d of
        None \<Rightarrow> Inl InvalidConfig
      | Some ng \<Rightarrow>
          if ng = 0 then Inl InvalidConfig
          else Inr \<lparr>c_nqubits = n, c_ndevices = d, c_nglobal = ng, c_nlocal = int n - int ng,
                   memory_device = memory, calc_devices = accelerators,
                   c_queue = [], c_queues = None, pieces = None,
                   transpose_order = [], reverse_transpose_order = []\<rparr>)"

text \<open>
  \<^verbatim>\<open>_add\<close>. The base class's \<^verbatim>\<open>_add\<close> and the layer's \<^verbatim>\<open>_prepare\<close> are not in the source
  tree and are parameters.
\<close>

definition circuit_add ::
  "('p circuit \<Rightarrow> heap \<Rightarrow> ref \<Rightarrow> error + 'p circuit \<times> heap) \<Rightarrow> (gate \<Rightarrow> gate) \<Rightarrow>
   'p circuit \<Rightarrow> heap \<Rightarrow> ref \<Rightarrow> error + 'p circuit \<times> heap" where
  "circuit_add base_add prepare c h r =
     (let gate = objs h r in
      if kind gate = VariationalLayer then base_add c (update_object h r prepare) r
      else if int (c_nqubits c) - int (length (target_qubits gate)) < int (c_nglobal c)
              \<and> kind gate \<noteq> M
      then Inl InsufficientQubits
      else base_add c h r)"

text \<open>The setter of \<^verbatim>\<open>global_qubits\<close>.\<close>

fun reverse_order :: "nat \<Rightarrow> nat list \<Rightarrow> nat list \<Rightarrow> error + nat list" where
  "reverse_order i [] rto = Inr rto"
| "reverse_order i (v # vs) rto =
     (if v < length rto then reverse_order (Suc i) vs (rto[v := i]) else Inl IndexError)"

definition set_global_qubits :: "'p circuit \<Rightarrow> nat list \<Rightarrow> error + 'p circuit" where
  "set_global_qubits c x =
     (let global_qubit_set = set x in
      if card global_qubit_set \<noteq> c_nglobal c then Inl InvalidPartition
      else (case DeviceQueues_init (c_nqubits c) (c_ndevices c) (c_nglobal c) (c_nlocal c)
                   (calc_devices c) global_qubit_set of
              Inl e \<Rightarrow> Inl e
            | Inr q \<Rightarrow>
                (let order = global_qubits_list q @ local_qubits q in
                 case reverse_order 0 order (replicate (c_nqubits c) 0) of
                   Inl e \<Rightarrow> Inl e
                 | Inr rto \<Rightarrow>
                     Inr (c\<lparr>c_queues := Some q, transpose_order := order,
                            reverse_transpose_order := rto\<rparr>))))"

text \<open>
  \<^verbatim>\<open>set_gates\<close>, in two steps: \<open>choose_partition\<close> is the part up to the assignment of
  \<^verbatim>\<open>self.global_qubits\<close>, where the counter decides the global qubits when none were
  preset; \<open>set_gates\<close> then transforms the queue and builds the waves.
\<close>

definition choose_partition :: "env \<Rightarrow> 'p circuit \<Rightarrow> heap \<Rightarrow> error + ('p circuit \<times> dq \<times> int list)" where
  "choose_partition E c h =
     (if c_queue c = [] then Inl PlanEmpty
      else (case count h (c_queue c) (c_nqubits c) of
              Inl e \<Rightarrow> Inl e
            | Inr cnt \<Rightarrow>
                (case c_queues c of
                   Some q \<Rightarrow> Inr (c, q, cnt)
                 | None \<Rightarrow>
                     (case set_global_qubits c (take (c_nglobal c) (argsort E cnt)) of
                        Inl e \<Rightarrow> Inl e
                      | Inr c' \<Rightarrow>
                          (case c_queues c' of
                             None \<Rightarrow> Inl InvalidPartition
                           | Some q \<Rightarrow> Inr (c', q, cnt))))))"

definition set_gates :: "nat \<Rightarrow> env \<Rightarrow> 'p circuit \<Rightarrow> heap \<Rightarrow> (error + 'p circuit \<times> heap) option" where
  "set_gates fuel E c h =
     (case choose_partition E c h of
        Inl e \<Rightarrow> Some (Inl e)
      | Inr (c', q, cnt) \<Rightarrow>
          (case transform fuel E q h (c_queue c') (Some cnt) of
             None \<Rightarrow> None
           | Some (Inl e) \<Rightarrow> Some (Inl e)
           | Some (Inr s) \<Rightarrow>
               (case create E (queue s) (self_dq s, gates s) of
                  Inl e \<Rightarrow> Some (Inl e)
                | Inr (q', h') \<Rightarrow> Some (Inr (c'\<lparr>c_queues := Some q'\<rparr>, h')))))"

text \<open>
  \<^verbatim>\<open>_swap\<close>. \<^verbatim>\<open>op.swap_pieces\<close> is a custom operator outside the source tree: a parameter
  that returns the two rewritten pieces. \<open>NoneError\<close> stands for the errors Python raises
  when \<^verbatim>\<open>self.queues\<close> or \<^verbatim>\<open>self.pieces\<close> is still \<^verbatim>\<open>None\<close>, \<open>NegativeShift\<close> for a shift
  by a negative count.
\<close>

datatype swap_error = SwapKeyError | SwapIndexError | NoneError | NegativeShift

definition pair_index :: "nat \<Rightarrow> nat \<Rightarrow> nat" where
  "pair_index g m = push_bit (m + 1) (drop_bit m g) + take_bit m g"

fun swap_pieces_loop ::
  "('p \<Rightarrow> 'p \<Rightarrow> nat \<Rightarrow> int \<Rightarrow> 'p \<times> 'p) \<Rightarrow> dq \<Rightarrow> nat \<Rightarrow> nat \<Rightarrow> int \<Rightarrow> nat list \<Rightarrow> 'p list \<Rightarrow> swap_error + 'p list" where
  "swap_pieces_loop swap_pieces q local_qubit m nl [] ps = Inr ps"
| "swap_pieces_loop swap_pieces q local_qubit m nl (g # gs) ps =
     (let i = pair_index g m; t = 2 ^ m in
      case local_qubits_reduced q local_qubit of
        None \<Rightarrow> Inl SwapKeyError
      | Some local_eff \<Rightarrow>
          if i + t < length ps
          then (let (a, b) = swap_pieces (ps ! i) (ps ! (i + t)) local_eff nl
                in swap_pieces_loop swap_pieces q local_qubit m nl gs (ps[i := a, i + t := b]))
          else Inl SwapIndexError)"

definition circuit_swap ::
  "('p \<Rightarrow> 'p \<Rightarrow> nat \<Rightarrow> int \<Rightarrow> 'p \<times> 'p) \<Rightarrow> 'p circuit \<Rightarrow> nat \<Rightarrow> nat \<Rightarrow> swap_error + 'p circuit" where
  "circuit_swap swap_pieces c global_qubit local_qubit =
     (case c_queues c of
        None \<Rightarrow> Inl NoneError
      | Some q \<Rightarrow>
          (case global_qubits_reduced q global_qubit of
             None \<Rightarrow> Inl SwapKeyError
           | Some m0 \<Rightarrow>
               (let m = int (c_nglobal c) - int m0 - 1 in
                if m < 0 then Inl NegativeShift
                else (case pieces c of
                        None \<Rightarrow> (if c_ndevices c div 2 = 0 then Inr c else
                                   (case local_qubits_reduced q local_qubit of
                                      None \<Rightarrow> Inl SwapKeyError | Some _ \<Rightarrow> Inl NoneError))
                      | Some ps \<Rightarrow>
                          (case swap_pieces_loop swap_pieces q local_qubit (nat m) (c_nlocal c)
                                  [0 ..< c_ndevices c div 2] ps of
                             Inl e \<Rightarrow> Inl e
                           | Inr ps' \<Rightarrow> Inr (c\<lparr>pieces := Some ps'\<rparr>))))))"

text \<open>
  The walk of \<^verbatim>\<open>_execute\<close> over the waves, as the sequence of steps it hands to the
  dispatcher (\<^verbatim>\<open>_joblib_execute\<close>) and to the bridge (\<^verbatim>\<open>_special_gate_execute\<close>). The
  second argument is what the iterator \<^verbatim>\<open>special_gates\<close> still holds. \<open>drain\<close> is the
  loop after the walk: it takes one element in the loop header and executes the next.
\<close>

datatype step = Dispatch "gate list list" | Bridge special

fun walk_waves :: "gate list list list \<Rightarrow> special list \<Rightarrow> step list \<Rightarrow> error + (step list \<times> special list)" where
  "walk_waves [] special_gates steps = Inr (steps, special_gates)"
| "walk_waves (w # ws) special_gates steps =
     (if w \<noteq> [] then walk_waves ws special_gates (steps @ [Dispatch w])
      else (case special_gates of
              [] \<Rightarrow> Inl StopIteration
            | g # rest \<Rightarrow> walk_waves ws rest (steps @ [Bridge g])))"

fun drain :: "special list \<Rightarrow> step list \<Rightarrow> error + step list" where
  "drain [] steps = Inr steps"
| "drain [g] steps = Inl StopIteration"
| "drain (g # g' # rest) steps = drain rest (steps @ [Bridge g'])"

definition execute_waves :: "dq \<Rightarrow> error + step list" where
  "execute_waves q =
     (case walk_waves (queues q) (special_queue q) [] of
        Inl e \<Rightarrow> Inl e
      | Inr (steps, special_gates) \<Rightarrow> drain special_gates steps)"

section \<open>Concrete instances for the examples\<close>

text \<open>
  The examples run the code on concrete circuits. They use an environment in which two
  gates commute when neither is special and they share no qubit, numpy's argsort is a
  stable sort, a set of qubit ids is iterated in ascending order and \<^verbatim>\<open>pop\<close> removes
  its least element. \<open>descending_ties_env\<close> differs in the argsort only: it still sorts
  by the counter, and puts the higher qubit id first among equal counters.
\<close>

definition disjoint_commutes :: "gate \<Rightarrow> gate \<Rightarrow> bool" where
  "disjoint_commutes a b =
     (\<not> is_special_gate a \<and> \<not> is_special_gate b \<and>
      set (target_qubits a @ control_qubits a) \<inter> set (target_qubits b @ control_qubits b) = {})"

definition stable_argsort :: "int list \<Rightarrow> nat list" where
  "stable_argsort c = sort_key (\<lambda>i. c ! i) [0 ..< length c]"


definition py_env :: env where
  "py_env = \<lparr>commutes = disjoint_commutes, argsort = stable_argsort,
     set_iter = sorted_list_of_set, set_pop = Min\<rparr>"


definition unitary :: "string \<Rightarrow> nat list \<Rightarrow> nat list \<Rightarrow> gate" where
  "unitary name T C = \<lparr>kind = Unitary name, target_qubits = T, control_qubits = C,
     is_special_gate = False, swap_reset = None, gate_nqubits = None, original_gate = None\<rparr>"

definition callback :: gate where
  "callback = \<lparr>kind = CallbackGate, target_qubits = [], control_qubits = [],
     is_special_gate = True, swap_reset = None, gate_nqubits = None, original_gate = None\<rparr>"

definition variational_layer :: "nat list \<Rightarrow> gate" where
  "variational_layer T = \<lparr>kind = VariationalLayer, target_qubits = T, control_qubits = [],
     is_special_gate = False, swap_reset = None, gate_nqubits = None, original_gate = None\<rparr>"

text \<open>A store holding the listed gate objects at the addresses 0, 1, ...\<close>

definition heap_of :: "gate list \<Rightarrow> heap" where
  "heap_of gs = \<lparr>objs = (\<lambda>r. if r < length gs then gs ! r else callback), next_ref = length gs\<rparr>"

text \<open>
  Modelled from the spec: \<^verbatim>\<open>add(gate)\<close> of the base circuit, which is not in the source
  tree; for the examples the gate joins the circuit's queue.
\<close>

definition queue_add :: "'p circuit \<Rightarrow> heap \<Rightarrow> ref \<Rightarrow> error + 'p circuit \<times> heap" where
  "queue_add c h r = Inr (c\<lparr>c_queue := c_queue c @ [r]\<rparr>, h)"

text \<open>
  A circuit on \<open>n\<close> qubits with \<open>d\<close> logical devices on one accelerator, with the given
  preset global qubits and the given queue of gate references.
\<close>

definition preset_circuit :: "nat \<Rightarrow> nat \<Rightarrow> nat list \<Rightarrow> ref list \<Rightarrow> nat circuit" where
  "preset_circuit n d x q =
     (projr (set_global_qubits (projr (circuit_init n [(''/GPU:0'', d)] ''/CPU:0'')) x))
       \<lparr>c_queue := q\<rparr>"

definition fresh_circuit :: "nat \<Rightarrow> nat \<Rightarrow> ref list \<Rightarrow> nat circuit" where
  "fresh_circuit n d q = (projr (circuit_init n [(''/GPU:0'', d)] ''/CPU:0''))\<lparr>c_queue := q\<rparr>"

text \<open>The special steps among the steps of a walk, in order.\<close>

fun bridge_steps :: "step list \<Rightarrow> special list" where
  "bridge_steps [] = []"
| "bridge_steps (Bridge g # rest) = g # bridge_steps rest"
| "bridge_steps (Dispatch w # rest) = bridge_steps rest"

section \<open>Predicates used in the statements\<close>

text \<open>
  \<open>only_swaps_added old new\<close>: the \<^verbatim>\<open>DeviceQueues\<close> object \<open>new\<close> is \<open>old\<close> with more pairs
  at the end of \<^verbatim>\<open>swaps_list\<close>, and nothing else changed. \<open>aligned\<close>: the wave list has
  as many empty entries as the special queue has entries.
\<close>

definition only_swaps_added :: "dq \<Rightarrow> dq \<Rightarrow> bool" where
  "only_swaps_added old new =
     (new = old\<lparr>swaps_list := swaps_list new\<rparr> \<and> (\<exists>added. swaps_list new = swaps_list old @ added))"

definition aligned :: "dq \<Rightarrow> bool" where
  "aligned self = (length (filter (\<lambda>w. w = []) (queues self)) = length (special_queue self))"


text \<open>Short names for the planning steps of the examples.\<close>

definition preset_queues :: "nat \<Rightarrow> nat \<Rightarrow> nat list \<Rightarrow> dq" where
  "preset_queues n d x = the (c_queues (preset_circuit n d x []))"

definition transformed :: "env \<Rightarrow> dq \<Rightarrow> heap \<Rightarrow> ref list \<Rightarrow> tstate" where
  "transformed E self h Q = projr (the (transform (Suc (length Q)) E self h Q None))"

definition plan_of :: "env \<Rightarrow> tstate \<Rightarrow> dq" where
  "plan_of E s = fst (projr (create E (queue s) (self_dq s, gates s)))"

text \<open>
  \<open>partition_ok\<close>: what the constructors establish about a \<^verbatim>\<open>DeviceQueues\<close> object and
  no method changes: the global list is the sorted global set, \<^verbatim>\<open>global_qubits_reduced\<close>
  maps a global id to its position in that list, there are \<open>nglobal\<close> global qubits, and
  the devices share out the piece indices \<open>0, ..., ndevices - 1\<close>.
\<close>

definition partition_ok :: "dq \<Rightarrow> bool" where
  "partition_ok self =
     (finite (global_qubits_set self)
      \<and> global_qubits_list self = sorted_list_of_set (global_qubits_set self)
      \<and> global_qubits_reduced self = index_of (global_qubits_list self)
      \<and> card (global_qubits_set self) = nglobal self
      \<and> concat (map snd (device_to_ids self)) = [0 ..< ndevices self])"

text \<open>
  What Python guarantees when the code iterates over a set: every element comes up, once.
\<close>

definition iterates_sets :: "env \<Rightarrow> bool" where
  "iterates_sets E = (\<forall>S. finite S \<longrightarrow> set (set_iter E S) = S \<and> distinct (set_iter E S))"

text \<open>
  \<open>acceptable G g\<close>: what \<^verbatim>\<open>accept\<close> is before the loop over the skipped gates: the gate is
  a SWAP with exactly one target in \<open>G\<close>, or it has no target in \<open>G\<close>.
\<close>

definition acceptable :: "nat set \<Rightarrow> gate \<Rightarrow> bool" where
  "acceptable G g =
     ((kind g = SWAP \<and> card (set (target_qubits g) \<inter> G) = 1) \<or> set (target_qubits g) \<inter> G = {})"

text \<open>
  \<open>swap_or_local G g\<close>: the gate \<open>g\<close> is a SWAP, or none of its targets is in \<open>G\<close>.
\<close>

definition swap_or_local :: "nat set \<Rightarrow> gate \<Rightarrow> bool" where
  "swap_or_local G g = (kind g = SWAP \<or> set (target_qubits g) \<inter> G = {})"



text \<open>
  The state in which \<^verbatim>\<open>_transform\<close> starts on the queue that holds the one gate
  \<open>SWAP(0, 1)\<close>, on four qubits and four devices with the global qubits 0 and 1.
\<close>

definition two_global_swap_state :: tstate where
  "two_global_swap_state =
     \<lparr>self_dq = preset_queues 4 4 [0, 1], gates = heap_of [make_SWAP 0 1], queue = [],
      counter = [1, 1, 0, 0]\<rparr>"

section \<open>Basic facts\<close>

text \<open>The equation of \<open>exact_log2\<close> is recursive without a pattern; it is unfolded by hand.\<close>

declare exact_log2.simps [simp del]

section \<open>The partition: reduction numbers\<close>

lemma reduction_number_loop_takeWhile:
  "reduction_number_loop gl q i = i + length (takeWhile (\<lambda>g. g \<le> q) gl)"
  by (induction gl arbitrary: i) auto

lemma takeWhile_le_sorted:
  "sorted gl \<Longrightarrow> takeWhile (\<lambda>g. g \<le> q) gl = filter (\<lambda>g. g \<le> (q::nat)) gl"
proof (induction gl)
  case Nil
  then show ?case by simp
next
  case (Cons a gl)
  show ?case
  proof (cases "a \<le> q")
    case True
    with Cons show ?thesis by simp
  next
    case False
    with Cons.prems have "\<forall>g \<in> set gl. \<not> g \<le> q" by auto
    then have "filter (\<lambda>g. g \<le> q) gl = []" by (simp add: filter_empty_conv)
    with False show ?thesis by simp
  qed
qed

lemma reduction_number_loop_card:
  assumes "finite G"
  shows "reduction_number_loop (sorted_list_of_set G) q 0 = card {g \<in> G. g \<le> q}"
proof -
  let ?gl = "sorted_list_of_set G"
  have "reduction_number_loop ?gl q 0 = length (filter (\<lambda>g. g \<le> q) ?gl)"
    by (simp add: reduction_number_loop_takeWhile takeWhile_le_sorted)
  also have "\<dots> = card (set (filter (\<lambda>g. g \<le> q) ?gl))"
    by (rule distinct_card [symmetric]) simp
  also have "set (filter (\<lambda>g. g \<le> q) ?gl) = {g \<in> G. g \<le> q}"
    using assms by auto
  finally show ?thesis .
qed

lemma DeviceQueues_init_fields:
  assumes "DeviceQueues_init n d ng nl cd G = Inr self"
  shows "global_qubits_set self = G" "global_qubits_list self = sorted_list_of_set G"
    "global_qubits_reduced self = index_of (sorted_list_of_set G)"
    "nqubits self = n" "ndevices self = d" "nglobal self = ng" "nlocal self = nl"
    "queues self = []" "special_queue self = []" "swaps_list self = []"
    "device_to_ids self = ids_from 0 cd"
    "local_qubits self = filter (\<lambda>q. q \<notin> G) [0 ..< n]"
  using assms
  by (auto simp: DeviceQueues_init_def Let_def split: sum.splits)


section \<open>The transformer and the wave builder\<close>

subsection \<open>What the transformer leaves alone\<close>

lemma only_swaps_added_refl: "only_swaps_added a a"
  by (simp add: only_swaps_added_def)

lemma only_swaps_added_trans:
  "only_swaps_added a b \<Longrightarrow> only_swaps_added b c \<Longrightarrow> only_swaps_added a c"
  unfolding only_swaps_added_def
proof (elim conjE exE, intro conjI)
  fix x y
  assume b: "b = a\<lparr>swaps_list := swaps_list b\<rparr>" and c: "c = b\<lparr>swaps_list := swaps_list c\<rparr>"
    and x: "swaps_list b = swaps_list a @ x" and y: "swaps_list c = swaps_list b @ y"
  have "c = (a\<lparr>swaps_list := swaps_list b\<rparr>)\<lparr>swaps_list := swaps_list c\<rparr>"
    using b c by simp
  then show "c = a\<lparr>swaps_list := swaps_list c\<rparr>" by simp
  show "\<exists>added. swaps_list c = swaps_list a @ added"
    using x y by simp
qed

lemma accept_loop_self:
  "accept_loop E rem nrq s = Inr (s', nrq') \<Longrightarrow> self_dq s' = self_dq s"
proof (induction rem arbitrary: nrq s)
  case Nil
  then show ?case by simp
next
  case (Cons r rem)
  from Cons.prems show ?case
    by (auto simp: Let_def split: if_splits sum.splits dest!: Cons.IH)
qed

lemma insert_swap_self: "only_swaps_added (self_dq s) (self_dq (insert_swap q qs s))"
  by (simp add: insert_swap_def only_swaps_added_def Let_def split: prod.splits)

lemma swap_loop_self:
  "swap_loop qs avail qmap s = Inr (qmap', s') \<Longrightarrow> only_swaps_added (self_dq s) (self_dq s')"
proof (induction qs avail qmap s rule: swap_loop.induct)
  case (1 avail qmap s)
  then show ?case by (simp add: only_swaps_added_refl)
next
  case (2 q rest qmap s)
  then show ?case by simp
next
  case (3 q rest qs avail qmap s)
  from "3.prems" have b: "q < length (counter s) \<and> qs < length (counter s)"
    by (auto split: if_splits)
  with "3.prems" have "swap_loop rest avail (qmap(q \<mapsto> qs, qs \<mapsto> q)) (insert_swap q qs s) = Inr (qmap', s')"
    by simp
  then have "only_swaps_added (self_dq (insert_swap q qs s)) (self_dq s')"
    by (rule "3.IH" [OF b])
  with insert_swap_self show ?case by (rule only_swaps_added_trans)
qed

lemma find_swaps_self:
  "find_swaps E nrq s = Inr (qmap, s') \<Longrightarrow> only_swaps_added (self_dq s) (self_dq s')"
  by (auto simp: find_swaps_def split: sum.splits prod.splits dest: swap_loop_self)

lemma transform_rec_self:
  "transform_rec fuel E rem s = Some (Inr s') \<Longrightarrow> only_swaps_added (self_dq s) (self_dq s')"
proof (induction fuel arbitrary: rem s)
  case 0
  then show ?case by simp
next
  case (Suc fuel)
  from Suc.prems obtain s1 nrq where a: "accept_loop E rem [] s = Inr (s1, nrq)"
    by (auto split: sum.splits)
  then have s1: "self_dq s1 = self_dq s" by (rule accept_loop_self)
  show ?case
  proof (cases "nrq = []")
    case True
    with Suc.prems a s1 show ?thesis by (simp add: only_swaps_added_refl)
  next
    case False
    with Suc.prems a obtain qmap s2 where f: "find_swaps E nrq s1 = Inr (qmap, s2)"
      and r: "transform_rec fuel E nrq (s2\<lparr>gates := remap_loop qmap nrq (gates s2)\<rparr>) = Some (Inr s')"
      by (auto split: sum.splits)
    from f have "only_swaps_added (self_dq s) (self_dq s2)"
      using s1 by (auto dest: find_swaps_self)
    moreover from Suc.IH [OF r] have "only_swaps_added (self_dq s2) (self_dq s')" by simp
    ultimately show ?thesis by (rule only_swaps_added_trans)
  qed
qed

lemma transform_self:
  assumes "transform fuel E self h Q cnt = Some (Inr s)"
  shows "only_swaps_added self (self_dq s)"
proof -
  from assms obtain c s0 where
    r: "transform_rec fuel E Q \<lparr>self_dq = self, gates = h, queue = [], counter = c\<rparr> = Some (Inr s0)"
    and s: "self_dq s = self_dq s0"
    by (auto simp: transform_def split: sum.splits option.splits prod.splits)
  from transform_rec_self [OF r] s show ?thesis by simp
qed

subsection \<open>Waves and special steps\<close>

lemma ids_loop_length:
  "ids_loop E self g cg ids wave = Inr wave' \<Longrightarrow> length wave' = length wave"
proof (induction ids arbitrary: wave)
  case Nil
  then show ?case by simp
next
  case (Cons i ids)
  from Cons.prems show ?case
    by (auto split: sum.splits if_splits dest!: Cons.IH)
qed

lemma device_loop_length:
  "device_loop E self h r dti wave = Inr wave' \<Longrightarrow> length wave' = length wave"
proof (induction dti arbitrary: wave)
  case Nil
  then show ?case by simp
next
  case (Cons d dti)
  obtain device ids where d: "d = (device, ids)" by (cases d)
  from Cons.prems show ?case
    unfolding d
    by (auto split: sum.splits dest!: Cons.IH ids_loop_length)
qed

lemma create_aligned:
  "create E Q (self, h) = Inr (self', h') \<Longrightarrow> 0 < ndevices self \<Longrightarrow> aligned self \<Longrightarrow> aligned self'"
proof (induction Q arbitrary: self h)
  case Nil
  then show ?case by simp
next
  case (Cons r Q)
  let ?gate = "objs h r"
  let ?G = "set (target_qubits ?gate) \<inter> global_qubits_set self"
  show ?case
  proof (cases "target_qubits ?gate = []")
    case True
    let ?self1 = "self\<lparr>special_queue := special_queue self @ [SpecialGate r], queues := queues self @ [[]]\<rparr>"
    from Cons.prems(1) True obtain h1 where "create E Q (?self1, h1) = Inr (self', h')"
      by (simp add: Let_def)
    moreover have "aligned ?self1" "0 < ndevices ?self1"
      using Cons.prems(2,3) by (simp_all add: aligned_def)
    ultimately show ?thesis using Cons.IH by blast
  next
    case False
    show ?thesis
    proof (cases "?G = {}")
      case nonglobal: True
      define qs where "qs = (if queues self = [] \<or> last (queues self) = []
                 then queues self @ [replicate (ndevices self) []] else queues self)"
      from Cons.prems(1) False nonglobal obtain wave where
        w: "device_loop E self h r (device_to_ids self) (last qs) = Inr wave"
        and c: "create E Q (self\<lparr>queues := butlast qs @ [wave]\<rparr>, h) = Inr (self', h')"
        by (auto simp: Let_def qs_def split: sum.splits)
      have ne: "qs \<noteq> []" "last qs \<noteq> []"
        using Cons.prems(2) by (auto simp: qs_def)
      have same: "filter (\<lambda>w. w = []) qs = filter (\<lambda>w. w = []) (queues self)"
        using Cons.prems(2) by (simp add: qs_def)
      have "length wave = length (last qs)"
        using w by (rule device_loop_length)
      with ne have wne: "wave \<noteq> []" by auto
      have "filter (\<lambda>w. w = []) (butlast qs @ [last qs]) = filter (\<lambda>w. w = []) qs"
        using ne(1) by simp
      then have "filter (\<lambda>w. w = []) (butlast qs) = filter (\<lambda>w. w = []) qs"
        using ne(2) by simp
      then have "filter (\<lambda>w. w = []) (butlast qs @ [wave]) = filter (\<lambda>w. w = []) (queues self)"
        using wne same by simp
      then have "aligned (self\<lparr>queues := butlast qs @ [wave]\<rparr>)"
        using Cons.prems(3) by (simp add: aligned_def)
      moreover have "0 < ndevices (self\<lparr>queues := butlast qs @ [wave]\<rparr>)"
        using Cons.prems(2) by simp
      ultimately show ?thesis using c Cons.IH by blast
    next
      case someglobal: False
      from Cons.prems(1) False someglobal obtain g l where
        c: "create E Q (self\<lparr>special_queue := special_queue self @ [GlobalSwap g l],
                             queues := queues self @ [[]]\<rparr>, h) = Inr (self', h')"
        by (auto simp: Let_def split: if_splits list.splits)
      moreover have "aligned (self\<lparr>special_queue := special_queue self @ [GlobalSwap g l],
                             queues := queues self @ [[]]\<rparr>)"
        using Cons.prems(3) by (simp add: aligned_def)
      moreover have "0 < ndevices (self\<lparr>special_queue := special_queue self @ [GlobalSwap g l],
                             queues := queues self @ [[]]\<rparr>)"
        using Cons.prems(2) by simp
      ultimately show ?thesis using Cons.IH by blast
    qed
  qed
qed

lemma walk_waves_exact:
  "length sp = length (filter (\<lambda>w. w = []) ws) \<Longrightarrow>
   \<exists>steps. walk_waves ws sp acc = Inr (acc @ steps, [])
     \<and> bridge_steps steps = sp \<and> length steps = length ws"
proof (induction ws arbitrary: sp acc)
  case Nil
  then show ?case by simp
next
  case (Cons w ws)
  show ?case
  proof (cases "w = []")
    case True
    with Cons.prems obtain g rest where sp: "sp = g # rest"
      and len: "length rest = length (filter (\<lambda>w. w = []) ws)"
      by (cases sp) auto
    from Cons.IH [OF len, of "acc @ [Bridge g]"] obtain steps where
      "walk_waves ws rest (acc @ [Bridge g]) = Inr ((acc @ [Bridge g]) @ steps, [])"
      "bridge_steps steps = rest" "length steps = length ws" by blast
    then have "walk_waves (w # ws) sp acc = Inr (acc @ (Bridge g # steps), [])
      \<and> bridge_steps (Bridge g # steps) = sp \<and> length (Bridge g # steps) = length (w # ws)"
      using True sp by simp
    then show ?thesis by blast
  next
    case False
    with Cons.prems have len: "length sp = length (filter (\<lambda>w. w = []) ws)" by simp
    from Cons.IH [OF len, of "acc @ [Dispatch w]"] obtain steps where
      "walk_waves ws sp (acc @ [Dispatch w]) = Inr ((acc @ [Dispatch w]) @ steps, [])"
      "bridge_steps steps = sp" "length steps = length ws" by blast
    then have "walk_waves (w # ws) sp acc = Inr (acc @ (Dispatch w # steps), [])
      \<and> bridge_steps (Dispatch w # steps) = sp \<and> length (Dispatch w # steps) = length (w # ws)"
      using False by simp
    then show ?thesis by blast
  qed
qed

lemma Some_Inr_collapse:
  "(case x of Some (Inr _) \<Rightarrow> True | _ \<Rightarrow> False) \<Longrightarrow> x = Some (Inr (projr (the x)))"
  by (auto split: option.splits sum.splits)

lemma transformed_eq:
  "(case transform (Suc (length Q)) E self h Q None of Some (Inr _) \<Rightarrow> True | _ \<Rightarrow> False)
   \<Longrightarrow> transform (Suc (length Q)) E self h Q None = Some (Inr (transformed E self h Q))"
  unfolding transformed_def by (rule Some_Inr_collapse)

lemma plan_of_eq:
  "\<not> isl (create E (queue s) (self_dq s, gates s))
   \<Longrightarrow> create E (queue s) (self_dq s, gates s)
       = Inr (plan_of E s, snd (projr (create E (queue s) (self_dq s, gates s))))"
  unfolding plan_of_def by simp


subsection \<open>Piece selection by global controls\<close>









subsection \<open>The partition invariant\<close>





lemma only_swaps_added_partition_ok:
  assumes "only_swaps_added a b" and "partition_ok a"
  shows "partition_ok b"
proof -
  from assms(1) have "b = a\<lparr>swaps_list := swaps_list b\<rparr>"
    by (simp add: only_swaps_added_def)
  then have "global_qubits_set b = global_qubits_set a" "global_qubits_list b = global_qubits_list a"
    "global_qubits_reduced b = global_qubits_reduced a" "nglobal b = nglobal a"
    "device_to_ids b = device_to_ids a" "ndevices b = ndevices a"
    by (metis dq.select_convs dq.surjective dq.update_convs)+
  with assms(2) show ?thesis by (simp add: partition_ok_def)
qed

lemma py_env_iterates_sets: "iterates_sets py_env"
  unfolding iterates_sets_def py_env_def by simp



subsection \<open>Counters and sorting\<close>










subsection \<open>The store of gate objects\<close>

lemma objs_update_object:
  "objs (update_object h r f) x = (if x = r then f (objs h r) else objs h x)"
  "next_ref (update_object h r f) = next_ref h"
  by (simp_all add: update_object_def)

lemma objs_new_object:
  "objs (fst (new_object h g)) x = (if x = next_ref h then g else objs h x)"
  "next_ref (fst (new_object h g)) = Suc (next_ref h)"
  "snd (new_object h g) = next_ref h"
  by (simp_all add: new_object_def)

lemma insert_swap_fields:
  "gates (insert_swap q qs s) = fst (new_object (gates s) (make_SWAP q qs))"
  "queue (insert_swap q qs s) = queue s @ [next_ref (gates s)]"
  "counter (insert_swap q qs s) = (counter s)[q := counter s ! qs, qs := counter s ! q]"
  "self_dq (insert_swap q qs s)
     = (self_dq s)\<lparr>swaps_list := swaps_list (self_dq s) @ [(min q qs, max q qs)]\<rparr>"
  by (simp_all add: insert_swap_def new_object_def Let_def)

lemma remap_gate_fields:
  "kind (remap_gate qmap g) = kind g"
  "target_qubits (remap_gate qmap g) = map (remap_qubit qmap) (target_qubits g)"
  "control_qubits (remap_gate qmap g) = map (remap_qubit qmap) (control_qubits g)"
  "is_special_gate (remap_gate qmap g) = is_special_gate g"
  by (simp_all add: remap_gate_def set_targets_and_controls_def)

lemma remap_loop_objs:
  "objs (remap_loop qmap rem h) r = (remap_gate qmap ^^ count_list rem r) (objs h r)"
proof (induction rem arbitrary: h)
  case Nil
  then show ?case by simp
next
  case (Cons a rem)
  show ?case
    by (simp add: Cons.IH objs_update_object funpow_swap1)
qed

lemma remap_loop_next_ref: "next_ref (remap_loop qmap rem h) = next_ref h"
  by (induction rem arbitrary: h) (simp_all add: objs_update_object)

lemma remap_loop_other: "r \<notin> set rem \<Longrightarrow> objs (remap_loop qmap rem h) r = objs h r"
  by (simp add: remap_loop_objs)

lemma distinct_count_list_1: "distinct xs \<Longrightarrow> x \<in> set xs \<Longrightarrow> count_list xs x = 1"
  by (induction xs) auto

lemma remap_loop_once:
  "distinct rem \<Longrightarrow> r \<in> set rem \<Longrightarrow> objs (remap_loop qmap rem h) r = remap_gate qmap (objs h r)"
  by (simp add: remap_loop_objs distinct_count_list_1)

lemma funpow_kind: "kind ((remap_gate qmap ^^ n) g) = kind g"
  by (induction n) (simp_all add: remap_gate_fields)

lemma remap_loop_kind: "kind (objs (remap_loop qmap rem h) r) = kind (objs h r)"
  by (simp add: remap_loop_objs funpow_kind)

subsection \<open>Which objects the transformer touches\<close>

lemma tag_special_fields:
  "next_ref (tag_special self h a) = next_ref h"
  "x \<noteq> a \<Longrightarrow> objs (tag_special self h a) x = objs h x"
  "kind (objs (tag_special self h a) x) = kind (objs h x)"
  "target_qubits (objs (tag_special self h a) x) = target_qubits (objs h x)"
  "control_qubits (objs (tag_special self h a) x) = control_qubits (objs h x)"
  by (simp_all add: tag_special_def objs_update_object)

lemma accept_loop_Cons:
  assumes "accept_loop E (a # rem) nrq s = Inr (s', nrq')"
  obtains s1 nrq1 where "accept_loop E rem nrq1 s1 = Inr (s', nrq')"
    and "gates s1 = tag_special (self_dq s) (gates s) a" and "self_dq s1 = self_dq s"
    and "accepts E (self_dq s) (gates s1) nrq a \<and> nrq1 = nrq \<and> queue s1 = queue s @ [a]
         \<or> \<not> accepts E (self_dq s) (gates s1) nrq a \<and> nrq1 = nrq @ [a] \<and> queue s1 = queue s"
proof (cases "accepts E (self_dq s) (tag_special (self_dq s) (gates s) a) nrq a")
  case True
  with assms obtain c' where
    r: "accept_loop E rem nrq (s\<lparr>gates := tag_special (self_dq s) (gates s) a,
        queue := queue s @ [a], counter := c'\<rparr>) = Inr (s', nrq')"
    by (auto simp: Let_def split: sum.splits)
  show ?thesis
    using True by (intro that [OF r]) simp_all
next
  case False
  with assms have
    r: "accept_loop E rem (nrq @ [a]) (s\<lparr>gates := tag_special (self_dq s) (gates s) a\<rparr>) = Inr (s', nrq')"
    by (auto simp: Let_def)
  show ?thesis
    using False by (intro that [OF r]) simp_all
qed

lemma accept_loop_frame:
  assumes "accept_loop E rem nrq s = Inr (s', nrq')"
  shows "next_ref (gates s') = next_ref (gates s)
    \<and> (\<forall>r. r \<notin> set rem \<longrightarrow> objs (gates s') r = objs (gates s) r)
    \<and> (\<forall>r. kind (objs (gates s') r) = kind (objs (gates s) r)
           \<and> target_qubits (objs (gates s') r) = target_qubits (objs (gates s) r)
           \<and> control_qubits (objs (gates s') r) = control_qubits (objs (gates s) r))
    \<and> set nrq' \<subseteq> set nrq \<union> set rem"
  using assms
proof (induction rem arbitrary: nrq s)
  case Nil
  then show ?case by simp
next
  case (Cons a rem)
  from Cons.prems obtain s1 nrq1 where
    step: "accept_loop E rem nrq1 s1 = Inr (s', nrq')"
    and g: "gates s1 = tag_special (self_dq s) (gates s) a"
    and n: "nrq1 = nrq \<or> nrq1 = nrq @ [a]"
    by (rule accept_loop_Cons) auto
  from Cons.IH [OF step] have ih: "next_ref (gates s') = next_ref (gates s1)"
    "\<And>r. r \<notin> set rem \<Longrightarrow> objs (gates s') r = objs (gates s1) r"
    "\<And>r. kind (objs (gates s') r) = kind (objs (gates s1) r)"
    "\<And>r. target_qubits (objs (gates s') r) = target_qubits (objs (gates s1) r)"
    "\<And>r. control_qubits (objs (gates s') r) = control_qubits (objs (gates s1) r)"
    "set nrq' \<subseteq> set nrq1 \<union> set rem"
    by simp_all
  show ?case
    unfolding ih(1,3,4,5) g tag_special_fields(1,3,4,5)
    using ih(2) ih(6) n tag_special_fields(2) g by auto
qed


lemma insert_swap_frame:
  "next_ref (gates (insert_swap q qs s)) = Suc (next_ref (gates s))"
  "r \<noteq> next_ref (gates s) \<Longrightarrow> objs (gates (insert_swap q qs s)) r = objs (gates s) r"
  "objs (gates (insert_swap q qs s)) (next_ref (gates s)) = make_SWAP q qs"
  by (simp_all add: insert_swap_fields objs_new_object)

lemma swap_loop_frame:
  assumes "swap_loop qs avail qmap s = Inr (qmap', s')"
  shows "next_ref (gates s) \<le> next_ref (gates s')
    \<and> (\<forall>r < next_ref (gates s). objs (gates s') r = objs (gates s) r)
    \<and> (\<forall>r. objs (gates s') r = objs (gates s) r \<or> kind (objs (gates s') r) = SWAP)
    \<and> (\<exists>new. queue s' = queue s @ new \<and> (\<forall>r \<in> set new. kind (objs (gates s') r) = SWAP))"
  using assms
proof (induction qs avail qmap s rule: swap_loop.induct)
  case (1 avail qmap s)
  then show ?case by simp
next
  case (2 q rest qmap s)
  then show ?case by simp
next
  case (3 q rest qs avail qmap s)
  let ?s1 = "insert_swap q qs s"
  from "3.prems" have b: "q < length (counter s) \<and> qs < length (counter s)"
    and r: "swap_loop rest avail (qmap(q \<mapsto> qs, qs \<mapsto> q)) ?s1 = Inr (qmap', s')"
    by (auto split: if_splits)
  from "3.IH" [OF b r] obtain new where
    ih: "next_ref (gates ?s1) \<le> next_ref (gates s')"
    "\<And>r. r < next_ref (gates ?s1) \<Longrightarrow> objs (gates s') r = objs (gates ?s1) r"
    "\<And>r. objs (gates s') r = objs (gates ?s1) r \<or> kind (objs (gates s') r) = SWAP"
    "queue s' = queue ?s1 @ new" "\<forall>r \<in> set new. kind (objs (gates s') r) = SWAP"
    by blast
  have a: "next_ref (gates s) \<le> next_ref (gates s')"
    using ih(1) by (simp add: insert_swap_frame)
  have b: "objs (gates s') r = objs (gates s) r" if "r < next_ref (gates s)" for r
    using ih(2) [of r] that by (simp add: insert_swap_frame)
  have n: "kind (objs (gates s') (next_ref (gates s))) = SWAP"
    using ih(2) [of "next_ref (gates s)"] by (simp add: insert_swap_frame make_SWAP_def)
  have c: "objs (gates s') r = objs (gates s) r \<or> kind (objs (gates s') r) = SWAP" for r
    using ih(3) [of r] n by (cases "r = next_ref (gates s)") (auto simp: insert_swap_frame)
  have d: "queue s' = queue s @ (next_ref (gates s) # new)"
    using ih(4) by (simp add: insert_swap_fields)
  have e: "\<forall>r \<in> set (next_ref (gates s) # new). kind (objs (gates s') r) = SWAP"
    using ih(5) n by simp
  from a b c d e show ?case by blast
qed

lemma swap_loop_counter_length:
  "swap_loop qs avail qmap s = Inr (qmap', s') \<Longrightarrow> length (counter s') = length (counter s)"
proof (induction qs avail qmap s rule: swap_loop.induct)
  case (1 avail qmap s)
  then show ?case by simp
next
  case (2 q rest qmap s)
  then show ?case by simp
next
  case (3 q rest qs avail qmap s)
  from "3.prems" have b: "q < length (counter s) \<and> qs < length (counter s)"
    and r: "swap_loop rest avail (qmap(q \<mapsto> qs, qs \<mapsto> q)) (insert_swap q qs s) = Inr (qmap', s')"
    by (auto split: if_splits)
  from "3.IH" [OF b r] show ?case by (simp add: insert_swap_fields)
qed

lemma find_swaps_frame:
  assumes "find_swaps E nrq s = Inr (qmap, s')"
  shows "next_ref (gates s) \<le> next_ref (gates s')
    \<and> (\<forall>r < next_ref (gates s). objs (gates s') r = objs (gates s) r)
    \<and> (\<forall>r. objs (gates s') r = objs (gates s) r \<or> kind (objs (gates s') r) = SWAP)
    \<and> (\<exists>new. queue s' = queue s @ new \<and> (\<forall>r \<in> set new. kind (objs (gates s') r) = SWAP))"
  using assms
  by (auto simp: find_swaps_def split: sum.splits prod.splits dest!: swap_loop_frame)

lemma only_swaps_added_global_set:
  "only_swaps_added a b \<Longrightarrow> global_qubits_set b = global_qubits_set a"
  unfolding only_swaps_added_def
  by (metis dq.select_convs(7) dq.surjective dq.update_convs(12))

lemma extend_swaps_frame:
  assumes "extend_swaps ps h new_queue = (h', out)"
  shows "next_ref h \<le> next_ref h'
    \<and> (\<forall>r < next_ref h. objs h' r = objs h r)
    \<and> (\<forall>r. objs h' r = objs h r \<or> kind (objs h' r) = SWAP)
    \<and> (\<exists>new. out = new_queue @ new \<and> (\<forall>r \<in> set new. kind (objs h' r) = SWAP))"
  using assms
proof (induction ps arbitrary: h new_queue)
  case Nil
  then show ?case by simp
next
  case (Cons p ps)
  obtain a b where p: "p = (a, b)" by (cases p)
  let ?h1 = "fst (new_object h (make_SWAP a b))"
  from Cons.prems have r: "extend_swaps ps ?h1 (new_queue @ [next_ref h]) = (h', out)"
    by (simp add: p new_object_def)
  from Cons.IH [OF r] obtain new where
    ih: "next_ref ?h1 \<le> next_ref h'"
    "\<And>r. r < next_ref ?h1 \<Longrightarrow> objs h' r = objs ?h1 r"
    "\<And>r. objs h' r = objs ?h1 r \<or> kind (objs h' r) = SWAP"
    "out = (new_queue @ [next_ref h]) @ new" "\<forall>r \<in> set new. kind (objs h' r) = SWAP"
    by blast
  have a: "next_ref h \<le> next_ref h'"
    using ih(1) by (simp add: objs_new_object)
  have b: "objs h' r = objs h r" if "r < next_ref h" for r
    using ih(2) [of r] that by (simp add: objs_new_object)
  have n: "kind (objs h' (next_ref h)) = SWAP"
    using ih(2) [of "next_ref h"] by (simp add: objs_new_object make_SWAP_def)
  have c: "objs h' r = objs h r \<or> kind (objs h' r) = SWAP" for r
    using ih(3) [of r] n by (cases "r = next_ref h") (auto simp: objs_new_object)
  have d: "out = new_queue @ (next_ref h # new)"
    using ih(4) by simp
  have e: "\<forall>r \<in> set (next_ref h # new). kind (objs h' r) = SWAP"
    using ih(5) n by simp
  from a b c d e show ?case by blast
qed


subsection \<open>Accepted gates have no global target\<close>

lemma swap_or_local_cong:
  "kind g' = kind g \<Longrightarrow> target_qubits g' = target_qubits g \<Longrightarrow>
   swap_or_local G g' = swap_or_local G g"
  by (simp add: swap_or_local_def)

lemma swap_or_local_kept:
  "objs h' r = objs h r \<or> kind (objs h' r) = SWAP \<Longrightarrow> swap_or_local G (objs h r) \<Longrightarrow>
   swap_or_local G (objs h' r)"
  by (auto simp: swap_or_local_def)

lemma swap_or_local_SWAP: "kind g = SWAP \<Longrightarrow> swap_or_local G g"
  by (simp add: swap_or_local_def)

lemma accepts_swap_or_local:
  "accepts E self h nrq r \<Longrightarrow> swap_or_local (global_qubits_set self) (objs h r)"
  by (auto simp: accepts_def swap_or_local_def Let_def)

lemma accept_loop_inv:
  assumes "accept_loop E rem nrq s = Inr (s', nrq')"
    and "\<forall>r \<in> set (queue s). swap_or_local G (objs (gates s) r) \<or> r \<in> set rem \<union> set nrq"
    and "G = global_qubits_set (self_dq s)"
  shows "\<forall>r \<in> set (queue s'). swap_or_local G (objs (gates s') r) \<or> r \<in> set nrq'"
  using assms
proof (induction rem arbitrary: nrq s)
  case Nil
  then show ?case by simp
next
  case (Cons a rem)
  from Cons.prems(1) obtain s1 nrq1 where
    step: "accept_loop E rem nrq1 s1 = Inr (s', nrq')"
    and g: "gates s1 = tag_special (self_dq s) (gates s) a" and d: "self_dq s1 = self_dq s"
    and c: "accepts E (self_dq s) (gates s1) nrq a \<and> nrq1 = nrq \<and> queue s1 = queue s @ [a]
         \<or> \<not> accepts E (self_dq s) (gates s1) nrq a \<and> nrq1 = nrq @ [a] \<and> queue s1 = queue s"
    by (rule accept_loop_Cons)
  have same: "swap_or_local G (objs (gates s1) r) = swap_or_local G (objs (gates s) r)" for r
    unfolding g by (rule swap_or_local_cong) (simp_all add: tag_special_fields)
  have "\<forall>r \<in> set (queue s1). swap_or_local G (objs (gates s1) r) \<or> r \<in> set rem \<union> set nrq1"
  proof
    fix r assume r: "r \<in> set (queue s1)"
    from c show "swap_or_local G (objs (gates s1) r) \<or> r \<in> set rem \<union> set nrq1"
    proof
      assume acc: "accepts E (self_dq s) (gates s1) nrq a \<and> nrq1 = nrq \<and> queue s1 = queue s @ [a]"
      then have oka: "swap_or_local G (objs (gates s1) a)"
        using Cons.prems(3) by (auto dest: accepts_swap_or_local)
      show ?thesis
      proof (cases "r = a")
        case True
        with oka show ?thesis by simp
      next
        case False
        with r acc have "r \<in> set (queue s)" by simp
        with Cons.prems(2) False acc show ?thesis by (auto simp: same)
      qed
    next
      assume rej: "\<not> accepts E (self_dq s) (gates s1) nrq a \<and> nrq1 = nrq @ [a] \<and> queue s1 = queue s"
      with r Cons.prems(2) show ?thesis by (auto simp: same)
    qed
  qed
  moreover have "G = global_qubits_set (self_dq s1)"
    using Cons.prems(3) d by simp
  ultimately show ?case
    using Cons.IH [OF step] by blast
qed

lemma find_swaps_inv:
  assumes "find_swaps E nrq s = Inr (qmap, s')"
    and "\<forall>r \<in> set (queue s). swap_or_local G (objs (gates s) r) \<or> r \<in> R"
  shows "\<forall>r \<in> set (queue s'). swap_or_local G (objs (gates s') r) \<or> r \<in> R"
proof -
  from find_swaps_frame [OF assms(1)] obtain new where
    ch: "\<And>r. objs (gates s') r = objs (gates s) r \<or> kind (objs (gates s') r) = SWAP"
    and q: "queue s' = queue s @ new" and n: "\<forall>r \<in> set new. kind (objs (gates s') r) = SWAP"
    by blast
  show ?thesis
  proof
    fix r assume "r \<in> set (queue s')"
    then consider "r \<in> set (queue s)" | "r \<in> set new" using q by auto
    then show "swap_or_local G (objs (gates s') r) \<or> r \<in> R"
    proof cases
      case 1
      with assms(2) have "swap_or_local G (objs (gates s) r) \<or> r \<in> R" by simp
      with swap_or_local_kept [OF ch [of r]] show ?thesis by blast
    next
      case 2
      with n show ?thesis by (simp add: swap_or_local_SWAP)
    qed
  qed
qed

lemma remap_loop_inv:
  assumes "\<forall>r \<in> set Q. swap_or_local G (objs h r) \<or> r \<in> set nrq"
  shows "\<forall>r \<in> set Q. swap_or_local G (objs (remap_loop qmap nrq h) r) \<or> r \<in> set nrq"
  using assms by (auto simp: remap_loop_other)

lemma transform_rec_inv:
  assumes "transform_rec fuel E rem s = Some (Inr s')"
    and "\<forall>r \<in> set (queue s). swap_or_local (global_qubits_set (self_dq s)) (objs (gates s) r) \<or> r \<in> set rem"
  shows "\<forall>r \<in> set (queue s'). swap_or_local (global_qubits_set (self_dq s)) (objs (gates s') r)"
  using assms
proof (induction fuel arbitrary: rem s)
  case 0
  then show ?case by simp
next
  case (Suc fuel)
  let ?G = "global_qubits_set (self_dq s)"
  from Suc.prems(1) obtain s1 nrq where a: "accept_loop E rem [] s = Inr (s1, nrq)"
    by (auto split: sum.splits)
  have d1: "self_dq s1 = self_dq s" using a by (rule accept_loop_self)
  have i1: "\<forall>r \<in> set (queue s1). swap_or_local ?G (objs (gates s1) r) \<or> r \<in> set nrq"
    using a Suc.prems(2) by (rule accept_loop_inv [where nrq = "[]", simplified]) simp
  show ?case
  proof (cases "nrq = []")
    case True
    with Suc.prems(1) a have "s' = s1" by simp
    with i1 True show ?thesis by simp
  next
    case False
    with Suc.prems(1) a obtain qmap s2 where f: "find_swaps E nrq s1 = Inr (qmap, s2)"
      and r: "transform_rec fuel E nrq (s2\<lparr>gates := remap_loop qmap nrq (gates s2)\<rparr>) = Some (Inr s')"
      by (auto split: sum.splits)
    have d2: "global_qubits_set (self_dq s2) = ?G"
      using find_swaps_self [OF f] d1 by (simp add: only_swaps_added_global_set)
    have "\<forall>r \<in> set (queue s2). swap_or_local ?G (objs (gates s2) r) \<or> r \<in> set nrq"
      using f i1 by (rule find_swaps_inv)
    then have "\<forall>r \<in> set (queue s2). swap_or_local ?G (objs (remap_loop qmap nrq (gates s2)) r) \<or> r \<in> set nrq"
      by (rule remap_loop_inv)
    with Suc.IH [OF r] d2 show ?thesis by simp
  qed
qed

lemma transform_inv:
  assumes "transform fuel E self h Q cnt = Some (Inr s)"
  shows "\<forall>r \<in> set (queue s). swap_or_local (global_qubits_set self) (objs (gates s) r)"
proof -
  from assms obtain c s0 h' out where
    r: "transform_rec fuel E Q \<lparr>self_dq = self, gates = h, queue = [], counter = c\<rparr> = Some (Inr s0)"
    and e: "extend_swaps (rev (swaps_list (self_dq s0))) (gates s0) (queue s0) = (h', out)"
    and s: "s = s0\<lparr>gates := h', queue := out\<rparr>"
    by (auto simp: transform_def split: sum.splits option.splits prod.splits)
  have i0: "\<forall>r \<in> set (queue s0). swap_or_local (global_qubits_set self) (objs (gates s0) r)"
    using transform_rec_inv [OF r] by simp
  from extend_swaps_frame [OF e] obtain new where
    ch: "\<And>r. objs h' r = objs (gates s0) r \<or> kind (objs h' r) = SWAP"
    and q: "out = queue s0 @ new" and n: "\<forall>r \<in> set new. kind (objs h' r) = SWAP"
    by blast
  have "\<forall>r \<in> set out. swap_or_local (global_qubits_set self) (objs h' r)"
  proof
    fix r assume "r \<in> set out"
    then consider "r \<in> set (queue s0)" | "r \<in> set new" using q by auto
    then show "swap_or_local (global_qubits_set self) (objs h' r)"
    proof cases
      case 1
      with i0 swap_or_local_kept [OF ch [of r]] show ?thesis by blast
    next
      case 2
      with n show ?thesis by (simp add: swap_or_local_SWAP)
    qed
  qed
  then show ?thesis by (simp add: s)
qed


subsection \<open>The errors of the wave builder\<close>

lemma reduce_ids_error: "reduce_ids gl qs = Inl e \<Longrightarrow> e = UnboundLocalError"
  by (induction qs arbitrary: e)
    (auto simp: reduction_number_of_def split: sum.splits if_splits)

lemma create_reduced_gate_error: "create_reduced_gate self h r = Inl e \<Longrightarrow> e = UnboundLocalError"
  by (auto simp: create_reduced_gate_def Let_def split: sum.splits dest: reduce_ids_error)

lemma flag_loop_error: "flag_loop self i cs = Inl e \<Longrightarrow> e = NotInList"
  by (induction cs) (auto simp: Let_def split: option.splits if_splits)

lemma ids_loop_error:
  "ids_loop E self g cg ids wave = Inl e \<Longrightarrow> e = NotInList \<or> e = IndexError"
proof (induction ids arbitrary: wave)
  case Nil
  then show ?case by simp
next
  case (Cons i ids)
  from Cons.prems show ?case
    by (auto split: sum.splits if_splits dest: flag_loop_error Cons.IH)
qed

lemma device_loop_error:
  "device_loop E self h r dti wave = Inl e \<Longrightarrow>
   e = UnboundLocalError \<or> e = NotInList \<or> e = IndexError"
proof (induction dti arbitrary: wave)
  case Nil
  then show ?case by simp
next
  case (Cons d dti)
  obtain device ids where d: "d = (device, ids)" by (cases d)
  from Cons.prems show ?case
    unfolding d
    by (auto split: sum.splits dest: create_reduced_gate_error ids_loop_error Cons.IH)
qed

lemma create_only_swap_error:
  assumes "\<forall>r \<in> set Q. swap_or_local (global_qubits_set self) (objs h r)"
  shows "create E Q (self, h) \<noteq> Inl OnlySwapSupported"
  using assms
proof (induction Q arbitrary: self h)
  case Nil
  then show ?case by simp
next
  case (Cons r Q)
  let ?gate = "objs h r"
  let ?G = "set (target_qubits ?gate) \<inter> global_qubits_set self"
  from Cons.prems have okr: "swap_or_local (global_qubits_set self) ?gate"
    and rest: "\<forall>x \<in> set Q. swap_or_local (global_qubits_set self) (objs h x)"
    by simp_all
  have step: "create E Q (self', h') \<noteq> Inl OnlySwapSupported"
    if "global_qubits_set self' = global_qubits_set self"
      and "\<And>x. kind (objs h' x) = kind (objs h x)"
      and "\<And>x. target_qubits (objs h' x) = target_qubits (objs h x)"
    for self' h'
  proof (rule Cons.IH)
    show "\<forall>x \<in> set Q. swap_or_local (global_qubits_set self') (objs h' x)"
      using rest that by (simp add: swap_or_local_def)
  qed
  show ?case
  proof (cases "target_qubits ?gate = []")
    case True
    have "create E (r # Q) (self, h) =
        create E Q (self\<lparr>special_queue := special_queue self @ [SpecialGate r],
                        queues := queues self @ [[]]\<rparr>,
                   update_object h r (\<lambda>g. g\<lparr>gate_nqubits := Some (int (nqubits self))\<rparr>))"
      using True by (simp add: Let_def)
    moreover have "\<dots> \<noteq> Inl OnlySwapSupported"
      by (rule step) (simp_all add: objs_update_object)
    ultimately show ?thesis by simp
  next
    case False
    show ?thesis
    proof (cases "?G = {}")
      case True
      define qs where "qs = (if queues self = [] \<or> last (queues self) = []
                 then queues self @ [replicate (ndevices self) []] else queues self)"
      show ?thesis
      proof (cases "device_loop E self h r (device_to_ids self) (last qs)")
        case (Inl e)
        then have "create E (r # Q) (self, h) = Inl e"
          using False True by (simp add: Let_def qs_def)
        with device_loop_error [OF Inl] show ?thesis by auto
      next
        case (Inr wave)
        then have "create E (r # Q) (self, h) = create E Q (self\<lparr>queues := butlast qs @ [wave]\<rparr>, h)"
          using False True by (simp add: Let_def qs_def)
        moreover have "\<dots> \<noteq> Inl OnlySwapSupported"
          by (rule step) simp_all
        ultimately show ?thesis by simp
      qed
    next
      case someglobal: False
      with okr have sw: "kind ?gate = SWAP"
        by (auto simp: swap_or_local_def)
      show ?thesis
      proof (cases "card ?G > 1")
        case True
        then show ?thesis using False someglobal sw by (simp add: Let_def)
      next
        case one: False
        let ?g = "the_elem ?G"
        have s1: "create E Q (self\<lparr>special_queue := special_queue self @ [GlobalSwap ?g l],
                          queues := queues self @ [[]]\<rparr>, h) \<noteq> Inl OnlySwapSupported" for l
          by (rule step) simp_all
        show ?thesis
          using False someglobal sw one s1
          by (auto simp: Let_def split: list.splits)
      qed
    qed
  qed
qed


subsection \<open>Gate objects are renamed in place\<close>









subsection \<open>The head of the remaining queue after a reconfiguration\<close>

lemma accepts_head: "accepts E self h [] r = acceptable (global_qubits_set self) (objs h r)"
  by (simp add: accepts_def acceptable_def Let_def)

lemma acceptable_cong:
  "kind g' = kind g \<Longrightarrow> target_qubits g' = target_qubits g \<Longrightarrow> acceptable G g' = acceptable G g"
  by (simp add: acceptable_def)

lemma swap_loop_map:
  assumes "swap_loop qs avail qmap s = Inr (qmap', s')"
    and "set qs \<subseteq> G" and "set avail \<inter> G = {}"
  shows "(\<forall>q \<in> set qs. \<exists>v \<in> set avail. qmap' q = Some v)
       \<and> (\<forall>k. k \<notin> set qs \<and> k \<notin> set avail \<longrightarrow> qmap' k = qmap k)"
  using assms
proof (induction qs avail qmap s rule: swap_loop.induct)
  case (1 avail qmap s)
  then show ?case by simp
next
  case (2 q rest qmap s)
  then show ?case by simp
next
  case (3 q rest v avail qmap s)
  let ?m = "qmap(q \<mapsto> v, v \<mapsto> q)"
  from "3.prems"(1) have b: "q < length (counter s) \<and> v < length (counter s)"
    and r: "swap_loop rest avail ?m (insert_swap q v s) = Inr (qmap', s')"
    by (auto split: if_splits)
  from "3.prems"(2,3) have sub: "set rest \<subseteq> G" "set avail \<inter> G = {}" "q \<in> G" "v \<notin> G"
    by auto
  from "3.IH" [OF b r sub(1,2)] have
    ih1: "\<forall>q' \<in> set rest. \<exists>v' \<in> set avail. qmap' q' = Some v'"
    and ih2: "\<And>k. k \<notin> set rest \<Longrightarrow> k \<notin> set avail \<Longrightarrow> qmap' k = ?m k"
    by simp_all
  have "\<exists>v' \<in> set (v # avail). qmap' q = Some v'"
  proof (cases "q \<in> set rest")
    case True
    with ih1 show ?thesis by auto
  next
    case False
    from sub have "q \<notin> set avail" "q \<noteq> v" by auto
    with False ih2 [of q] show ?thesis by simp
  qed
  moreover have "\<forall>q' \<in> set rest. \<exists>v' \<in> set (v # avail). qmap' q' = Some v'"
    using ih1 by auto
  moreover have "\<forall>k. k \<notin> set (q # rest) \<and> k \<notin> set (v # avail) \<longrightarrow> qmap' k = qmap k"
    using ih2 by auto
  ultimately show ?case by simp
qed

lemma swap_targets_cases:
  assumes "swap_targets E self g = Inr (X, Gt)"
  shows "Gt \<subseteq> global_qubits_set self \<and> finite Gt
    \<and> (kind g \<noteq> SWAP \<and> X = set (target_qubits g) \<and> Gt = set (target_qubits g) \<inter> global_qubits_set self
       \<or> kind g = SWAP \<and> card (set (target_qubits g) \<inter> global_qubits_set self) = 2
         \<and> (\<exists>p. p \<in> set (target_qubits g) \<inter> global_qubits_set self
                \<and> X = set (target_qubits g) - {p}
                \<and> Gt = set (target_qubits g) \<inter> global_qubits_set self - {p}))"
  using assms
  by (auto simp: swap_targets_def Let_def split: if_splits)

lemma head_acceptable_after_swaps:
  assumes f: "find_swaps E (r # rest) s = Inr (qmap, s2)"
    and once: "r \<notin> set rest" and valid: "r < next_ref (gates s)"
    and it: "iterates_sets E"
  shows "acceptable (global_qubits_set (self_dq s)) (objs (remap_loop qmap (r # rest) (gates s2)) r)"
proof -
  let ?G = "global_qubits_set (self_dq s)"
  let ?g = "objs (gates s) r"
  let ?T = "set (target_qubits ?g)"
  from f obtain X Gt where st: "swap_targets E (self_dq s) ?g = Inr (X, Gt)"
    and sl: "swap_loop (set_iter E Gt) (filter (\<lambda>q. q \<notin> ?G \<union> X) (argsort E (counter s)))
               Map.empty s = Inr (qmap, s2)"
    by (auto simp: find_swaps_def split: sum.splits prod.splits)
  let ?avail = "filter (\<lambda>q. q \<notin> ?G \<union> X) (argsort E (counter s))"
  from swap_targets_cases [OF st] have GtG: "Gt \<subseteq> ?G" and fin: "finite Gt"
    and cases: "kind ?g \<noteq> SWAP \<and> X = ?T \<and> Gt = ?T \<inter> ?G
       \<or> kind ?g = SWAP \<and> card (?T \<inter> ?G) = 2
         \<and> (\<exists>p. p \<in> ?T \<inter> ?G \<and> X = ?T - {p} \<and> Gt = ?T \<inter> ?G - {p})"
    by simp_all
  have iter: "set (set_iter E Gt) = Gt"
    using it fin by (simp add: iterates_sets_def)
  have "set (set_iter E Gt) \<subseteq> ?G" "set ?avail \<inter> ?G = {}"
    using GtG iter by auto
  from swap_loop_map [OF sl this] iter have
    m1: "\<And>q. q \<in> Gt \<Longrightarrow> \<exists>v. v \<notin> ?G \<and> v \<notin> X \<and> qmap q = Some v"
    and m2: "\<And>k. k \<notin> Gt \<Longrightarrow> k \<in> ?G \<or> k \<in> X \<Longrightarrow> qmap k = None"
    by auto
  have same: "objs (gates s2) r = ?g"
    using find_swaps_frame [OF f] valid by simp
  have one: "count_list (r # rest) r = 1"
    using once by simp
  have "objs (remap_loop qmap (r # rest) (gates s2)) r
      = (remap_gate qmap ^^ count_list (r # rest) r) (objs (gates s2) r)"
    by (rule remap_loop_objs)
  then have obj: "objs (remap_loop qmap (r # rest) (gates s2)) r = remap_gate qmap ?g"
    unfolding one same by simp
  have out: "remap_qubit qmap t \<notin> ?G" if "t \<in> Gt" for t
    using m1 [OF that] by (auto simp: remap_qubit_def)
  have keep: "remap_qubit qmap t = t" if "t \<notin> Gt" "t \<in> ?G \<or> t \<in> X" for t
    using m2 [OF that] by (simp add: remap_qubit_def)
  from cases show ?thesis
  proof
    assume c: "kind ?g \<noteq> SWAP \<and> X = ?T \<and> Gt = ?T \<inter> ?G"
    have "remap_qubit qmap t \<notin> ?G" if "t \<in> ?T" for t
    proof (cases "t \<in> ?G")
      case True
      with that c have "t \<in> Gt" by simp
      then show ?thesis by (rule out)
    next
      case False
      with that c have "t \<notin> Gt" "t \<in> ?G \<or> t \<in> X" by simp_all
      then have "remap_qubit qmap t = t" by (rule keep)
      with False show ?thesis by simp
    qed
    then have "set (map (remap_qubit qmap) (target_qubits ?g)) \<inter> ?G = {}" by auto
    then show ?thesis
      unfolding obj by (simp add: acceptable_def remap_gate_fields)
  next
    assume c: "kind ?g = SWAP \<and> card (?T \<inter> ?G) = 2
         \<and> (\<exists>p. p \<in> ?T \<inter> ?G \<and> X = ?T - {p} \<and> Gt = ?T \<inter> ?G - {p})"
    then obtain p where p: "p \<in> ?T" "p \<in> ?G" "X = ?T - {p}" "Gt = ?T \<inter> ?G - {p}" by auto
    have "p \<notin> Gt" "p \<in> ?G \<or> p \<in> X" using p by simp_all
    then have pk: "remap_qubit qmap p = p" by (rule keep)
    have others: "remap_qubit qmap t \<notin> ?G" if "t \<in> ?T" "t \<noteq> p" for t
    proof (cases "t \<in> ?G")
      case True
      with that p have "t \<in> Gt" by simp
      then show ?thesis by (rule out)
    next
      case False
      with that p have "t \<notin> Gt" "t \<in> ?G \<or> t \<in> X" by simp_all
      then have "remap_qubit qmap t = t" by (rule keep)
      with False show ?thesis by simp
    qed
    have "set (map (remap_qubit qmap) (target_qubits ?g)) \<inter> ?G = {p}"
    proof
      show "set (map (remap_qubit qmap) (target_qubits ?g)) \<inter> ?G \<subseteq> {p}"
        using others pk by auto
      show "{p} \<subseteq> set (map (remap_qubit qmap) (target_qubits ?g)) \<inter> ?G"
        using p(1,2) pk by force
    qed
    with c show ?thesis
      unfolding obj by (simp add: acceptable_def remap_gate_fields)
  qed
qed


subsection \<open>Termination of the transformer\<close>

lemma accept_loop_remaining:
  assumes "accept_loop E rem nrq s = Inr (s', nrq')"
  shows "length nrq' \<le> length nrq + length rem \<and> (distinct (nrq @ rem) \<longrightarrow> distinct nrq')"
  using assms
proof (induction rem arbitrary: nrq s)
  case Nil
  then show ?case by simp
next
  case (Cons a rem)
  from Cons.prems obtain s1 nrq1 where
    step: "accept_loop E rem nrq1 s1 = Inr (s', nrq')"
    and n: "nrq1 = nrq \<or> nrq1 = nrq @ [a]"
    by (rule accept_loop_Cons) auto
  from Cons.IH [OF step] n show ?case by auto
qed

lemma accept_loop_takes_head:
  assumes "accept_loop E (a # rest) [] s = Inr (s', nrq')"
    and "acceptable (global_qubits_set (self_dq s)) (objs (gates s) a)"
  shows "length nrq' \<le> length rest"
proof -
  from assms(1) obtain s1 nrq1 where
    step: "accept_loop E rest nrq1 s1 = Inr (s', nrq')"
    and g: "gates s1 = tag_special (self_dq s) (gates s) a"
    and c: "accepts E (self_dq s) (gates s1) [] a \<and> nrq1 = [] \<and> queue s1 = queue s @ [a]
         \<or> \<not> accepts E (self_dq s) (gates s1) [] a \<and> nrq1 = [] @ [a] \<and> queue s1 = queue s"
    by (rule accept_loop_Cons)
  have "acceptable (global_qubits_set (self_dq s)) (objs (gates s1) a)
      = acceptable (global_qubits_set (self_dq s)) (objs (gates s) a)"
    unfolding g by (rule acceptable_cong) (simp_all add: tag_special_fields)
  with assms(2) have "accepts E (self_dq s) (gates s1) [] a"
    by (simp add: accepts_head)
  with c have "nrq1 = []" by simp
  with accept_loop_remaining [OF step] show ?thesis by simp
qed

lemma accept_loop_Nil_rem: "accept_loop E [] nrq s = Inr (s', nrq') \<Longrightarrow> nrq' = nrq"
  by simp

lemma reconfigured_state:
  assumes a: "accept_loop E rem [] s = Inr (s1, nrq)" and ne: "nrq \<noteq> []"
    and f: "find_swaps E nrq s1 = Inr (qmap, s2)"
    and d: "distinct rem" and v: "\<forall>r \<in> set rem. r < next_ref (gates s)"
    and it: "iterates_sets E"
  defines "s3 \<equiv> s2\<lparr>gates := remap_loop qmap nrq (gates s2)\<rparr>"
  shows "distinct nrq" and "\<forall>r \<in> set nrq. r < next_ref (gates s3)"
    and "acceptable (global_qubits_set (self_dq s3)) (objs (gates s3) (hd nrq))"
    and "length nrq \<le> length rem"
proof -
  from accept_loop_remaining [OF a] d show dn: "distinct nrq" and "length nrq \<le> length rem"
    by simp_all
  from accept_loop_frame [OF a] have n1: "next_ref (gates s1) = next_ref (gates s)"
    and sub: "set nrq \<subseteq> set rem" by simp_all
  from find_swaps_frame [OF f] have n2: "next_ref (gates s1) \<le> next_ref (gates s2)" by simp
  have n3: "next_ref (gates s3) = next_ref (gates s2)"
    by (simp add: s3_def remap_loop_next_ref)
  show "\<forall>r \<in> set nrq. r < next_ref (gates s3)"
    using v sub n1 n2 n3 by fastforce
  from ne obtain r rest where nrq: "nrq = r # rest" by (cases nrq) auto
  with dn have once: "r \<notin> set rest" by simp
  from nrq sub v n1 have valid: "r < next_ref (gates s1)" by auto
  have "acceptable (global_qubits_set (self_dq s1)) (objs (remap_loop qmap (r # rest) (gates s2)) r)"
    using f [unfolded nrq] once valid it by (rule head_acceptable_after_swaps)
  moreover have "global_qubits_set (self_dq s3) = global_qubits_set (self_dq s1)"
    using find_swaps_self [OF f] by (simp add: s3_def only_swaps_added_global_set)
  ultimately show "acceptable (global_qubits_set (self_dq s3)) (objs (gates s3) (hd nrq))"
    by (simp add: s3_def nrq)
qed

lemma transform_rec_returns_after_swaps:
  assumes it: "iterates_sets E"
  shows "distinct rem \<Longrightarrow> \<forall>r \<in> set rem. r < next_ref (gates s) \<Longrightarrow>
     (rem \<noteq> [] \<longrightarrow> acceptable (global_qubits_set (self_dq s)) (objs (gates s) (hd rem))) \<Longrightarrow>
     length rem \<le> n \<Longrightarrow> 0 < n \<Longrightarrow> transform_rec n E rem s \<noteq> None"
proof (induction n arbitrary: rem s)
  case 0
  then show ?case by simp
next
  case (Suc m)
  show ?case
  proof (cases "accept_loop E rem [] s")
    case (Inl e)
    then show ?thesis by simp
  next
    case (Inr p)
    obtain s1 nrq where p: "p = (s1, nrq)" by (cases p)
    note a = Inr [unfolded p]
    show ?thesis
    proof (cases "nrq = []")
      case True
      with a show ?thesis by simp
    next
      case False
      have "rem \<noteq> []" using a False by auto
      then obtain r0 rest0 where rem: "rem = r0 # rest0" by (cases rem) auto
      from Suc.prems(3) rem have "acceptable (global_qubits_set (self_dq s)) (objs (gates s) r0)"
        by simp
      with a [unfolded rem] have "length nrq \<le> length rest0"
        by (rule accept_loop_takes_head)
      with Suc.prems(4) rem have len: "length nrq \<le> m" by simp
      with False have pos: "0 < m" by (cases nrq) auto
      show ?thesis
      proof (cases "find_swaps E nrq s1")
        case (Inl e)
        with a False show ?thesis by simp
      next
        case (Inr x)
        obtain qmap s2 where x: "x = (qmap, s2)" by (cases x)
        note f = Inr [unfolded x]
        let ?s3 = "s2\<lparr>gates := remap_loop qmap nrq (gates s2)\<rparr>"
        note rs = reconfigured_state [OF a False f Suc.prems(1,2) it]
        have "transform_rec m E nrq ?s3 \<noteq> None"
          using rs(1,2) _ len pos
        proof (rule Suc.IH)
          show "nrq \<noteq> [] \<longrightarrow> acceptable (global_qubits_set (self_dq ?s3)) (objs (gates ?s3) (hd nrq))"
            using rs(3) by simp
        qed
        with a False f show ?thesis by simp
      qed
    qed
  qed
qed

lemma transform_rec_returns:
  assumes it: "iterates_sets E" and d: "distinct rem" and v: "\<forall>r \<in> set rem. r < next_ref (gates s)"
  shows "transform_rec (Suc (length rem)) E rem s \<noteq> None"
proof (cases "accept_loop E rem [] s")
  case (Inl e)
  then show ?thesis by simp
next
  case (Inr p)
  obtain s1 nrq where p: "p = (s1, nrq)" by (cases p)
  note a = Inr [unfolded p]
  show ?thesis
  proof (cases "nrq = []")
    case True
    with a show ?thesis by simp
  next
    case False
    show ?thesis
    proof (cases "find_swaps E nrq s1")
      case (Inl e)
      with a False show ?thesis by simp
    next
      case (Inr x)
      obtain qmap s2 where x: "x = (qmap, s2)" by (cases x)
      note f = Inr [unfolded x]
      let ?s3 = "s2\<lparr>gates := remap_loop qmap nrq (gates s2)\<rparr>"
      note rs = reconfigured_state [OF a False f d v it]
      from False rs(4) have pos: "0 < length rem" by (cases nrq) auto
      have "transform_rec (length rem) E nrq ?s3 \<noteq> None"
        using it rs(1,2) _ rs(4) pos
      proof (rule transform_rec_returns_after_swaps)
        show "nrq \<noteq> [] \<longrightarrow> acceptable (global_qubits_set (self_dq ?s3)) (objs (gates ?s3) (hd nrq))"
          using rs(3) by simp
      qed
      with a False f show ?thesis by simp
    qed
  qed
qed

lemma transform_rec_more_fuel:
  "transform_rec n E rem s = Some res \<Longrightarrow> transform_rec (n + k) E rem s = Some res"
proof (induction n arbitrary: rem s)
  case 0
  then show ?case by simp
next
  case (Suc n)
  from Suc.prems show ?case
    by (auto split: sum.splits if_splits dest: Suc.IH)
qed

lemma recursive_call_accepts_head:
  assumes a: "accept_loop E rem [] s = Inr (s1, nrq)" and ne: "nrq \<noteq> []"
    and f: "find_swaps E nrq s1 = Inr (qmap, s2)"
    and d: "distinct rem" and v: "\<forall>r \<in> set rem. r < next_ref (gates s)"
    and it: "iterates_sets E"
    and next_pass: "accept_loop E nrq [] (s2\<lparr>gates := remap_loop qmap nrq (gates s2)\<rparr>) = Inr (s4, nrq')"
  shows "length nrq' < length nrq"
proof -
  note rs = reconfigured_state [OF a ne f d v it]
  from ne obtain r rest where nrq: "nrq = r # rest" by (cases nrq) auto
  from rs(3) have "acceptable (global_qubits_set (self_dq (s2\<lparr>gates := remap_loop qmap nrq (gates s2)\<rparr>)))
      (objs (gates (s2\<lparr>gates := remap_loop qmap nrq (gates s2)\<rparr>)) r)"
    by (simp add: nrq)
  with next_pass [unfolded nrq] have "length nrq' \<le> length rest"
    unfolding nrq by (rule accept_loop_takes_head)
  then show ?thesis by (simp add: nrq)
qed


subsection \<open>A gate object that occurs twice in the queue\<close>

lemma stable_argsort_two:
  "length c = 2 \<Longrightarrow> filter ((<) 0) (stable_argsort c) = [Suc 0]"
proof -
  assume "length c = 2"
  then have "[0 ..< length c] = [0, 1]"
    by (simp add: upt_rec numeral_2_eq_2)
  then show ?thesis
    by (simp add: stable_argsort_def)
qed

lemma repeated_gate_pass:
  assumes "kind (objs (gates s) 0) = Unitary ''H''" and "target_qubits (objs (gates s) 0) = [0]"
    and "\<not> is_special_gate (objs (gates s) 0)"
    and "global_qubits_set (self_dq s) = {0}"
  shows "accept_loop py_env [0, 0] [] s = Inr (s, [0, 0])"
  using assms
  by (simp add: Let_def tag_special_def accepts_def)

lemma repeated_gate_swaps:
  assumes "kind (objs (gates s) 0) = Unitary ''H''" and "target_qubits (objs (gates s) 0) = [0]"
    and "global_qubits_set (self_dq s) = {0}" and "length (counter s) = 2"
  shows "find_swaps py_env [0, 0] s = Inr ([0 \<mapsto> Suc 0, Suc 0 \<mapsto> 0], insert_swap 0 (Suc 0) s)"
  using assms
  by (simp add: find_swaps_def swap_targets_def Let_def py_env_def stable_argsort_two)

lemma repeated_gate_remap:
  assumes "target_qubits (objs h 0) = [0]"
  shows "kind (objs (remap_loop [0 \<mapsto> Suc 0, Suc 0 \<mapsto> 0] [0, 0] h) 0) = kind (objs h 0)"
    and "target_qubits (objs (remap_loop [0 \<mapsto> Suc 0, Suc 0 \<mapsto> 0] [0, 0] h) 0) = [0]"
    and "is_special_gate (objs (remap_loop [0 \<mapsto> Suc 0, Suc 0 \<mapsto> 0] [0, 0] h) 0)
         = is_special_gate (objs h 0)"
  using assms
  by (simp_all add: objs_update_object remap_gate_fields remap_qubit_def)

lemma repeated_gate_loops:
  assumes "kind (objs (gates s) 0) = Unitary ''H''" and "target_qubits (objs (gates s) 0) = [0]"
    and "\<not> is_special_gate (objs (gates s) 0)"
    and "global_qubits_set (self_dq s) = {0}" and "length (counter s) = 2"
    and "0 < next_ref (gates s)"
  shows "transform_rec n py_env [0, 0] s = None"
  using assms
proof (induction n arbitrary: s)
  case 0
  then show ?case by simp
next
  case (Suc n)
  define s2 where "s2 = insert_swap 0 (Suc 0) s"
  define h3 where "h3 = remap_loop [0 \<mapsto> Suc 0, Suc 0 \<mapsto> 0] [0, 0] (gates s2)"
  have a: "accept_loop py_env [0, 0] [] s = Inr (s, [0, 0])"
    using Suc.prems(1-4) by (rule repeated_gate_pass)
  have f: "find_swaps py_env [0, 0] s = Inr ([0 \<mapsto> Suc 0, Suc 0 \<mapsto> 0], s2)"
    using repeated_gate_swaps [OF Suc.prems(1,2,4,5)] by (simp add: s2_def)
  have same: "objs (gates s2) 0 = objs (gates s) 0"
    using Suc.prems(6) by (simp add: s2_def insert_swap_frame)
  have t2: "target_qubits (objs (gates s2) 0) = [0]"
    using Suc.prems(2) by (simp add: same)
  note rm = repeated_gate_remap [OF t2, folded h3_def]
  have "transform_rec n py_env [0, 0] (s2\<lparr>gates := h3\<rparr>) = None"
  proof (rule Suc.IH)
    show "kind (objs (gates (s2\<lparr>gates := h3\<rparr>)) 0) = Unitary ''H''"
      using Suc.prems(1) by (simp add: rm same)
    show "target_qubits (objs (gates (s2\<lparr>gates := h3\<rparr>)) 0) = [0]"
      by (simp add: rm)
    show "\<not> is_special_gate (objs (gates (s2\<lparr>gates := h3\<rparr>)) 0)"
      using Suc.prems(3) by (simp add: rm same)
    show "global_qubits_set (self_dq (s2\<lparr>gates := h3\<rparr>)) = {0}"
      using Suc.prems(4) by (simp add: s2_def insert_swap_fields)
    show "length (counter (s2\<lparr>gates := h3\<rparr>)) = 2"
      using Suc.prems(5) by (simp add: s2_def insert_swap_fields)
    show "0 < next_ref (gates (s2\<lparr>gates := h3\<rparr>))"
      by (simp add: h3_def s2_def remap_loop_next_ref insert_swap_frame del: remap_loop.simps)
  qed
  then show ?case
    unfolding h3_def using a f by (simp del: remap_loop.simps)
qed

lemma repeated_gate_never_returns:
  "transform n py_env (preset_queues 2 2 [0]) (heap_of [unitary ''H'' [0] []]) [0, 0] None = None"
proof -
  let ?self = "preset_queues 2 2 [0]"
  let ?h = "heap_of [unitary ''H'' [0] []]"
  have c: "count ?h [0, 0] (nqubits ?self) = Inr [2, 0]" by code_simp
  have g: "global_qubits_set ?self = {0}" by code_simp
  have "transform_rec n py_env [0, 0] \<lparr>self_dq = ?self, gates = ?h, queue = [], counter = [2, 0]\<rparr> = None"
    by (rule repeated_gate_loops) (simp_all add: g heap_of_def unitary_def)
  with c show ?thesis by (simp add: transform_def)
qed


section \<open>C3: reduction numbers\<close>

text \<open>
  C3, amended. On a \<^verbatim>\<open>DeviceQueues\<close> object built by the constructor from a non-empty
  global set, \<^verbatim>\<open>reduction_number(q)\<close> returns the number of global ids less than or
  equal to \<open>q\<close>. That is the number of global ids strictly less than \<open>q\<close> when \<open>q\<close> is
  not a global qubit, and one more than that number when \<open>q\<close> is itself global.
\<close>

theorem reduction_number_counts_le:
  assumes "DeviceQueues_init n d ng nl cd G = Inr self" and "finite G" and "G \<noteq> {}"
  shows "reduction_number self q = Inr (card {g \<in> G. g \<le> q})
       \<and> (q \<notin> G \<longrightarrow> reduction_number self q = Inr (card {g \<in> G. g < q}))
       \<and> (q \<in> G \<longrightarrow> reduction_number self q = Inr (Suc (card {g \<in> G. g < q})))"
proof -
  have gl: "global_qubits_list self = sorted_list_of_set G"
    using assms(1) by (rule DeviceQueues_init_fields)
  have ne: "sorted_list_of_set G \<noteq> []"
    using assms(2,3) by simp
  have main: "reduction_number self q = Inr (card {g \<in> G. g \<le> q})"
    using ne by (simp add: reduction_number_def reduction_number_of_def gl
        reduction_number_loop_card [OF assms(2)])
  have fin: "finite {g \<in> G. g < q}" using assms(2) by simp
  have out: "q \<notin> G \<Longrightarrow> {g \<in> G. g \<le> q} = {g \<in> G. g < q}"
    by (auto simp: le_less)
  have inn: "q \<in> G \<Longrightarrow> {g \<in> G. g \<le> q} = insert q {g \<in> G. g < q}"
    by auto
  show ?thesis
    using main fin by (auto simp: out inn)
qed

text \<open>
  Three qubits, global set \<open>{1}\<close>: the local qubits 0 and 2 have 0 and 1 global ids
  below them, and the global qubit 1 gets 1, not 0.
\<close>

theorem reduction_number_counts_le_witness:
  "reduction_number (projr (DeviceQueues_init 3 2 1 2 [(''/GPU:0'', 2)] {1})) 2 = Inr 1
   \<and> reduction_number (projr (DeviceQueues_init 3 2 1 2 [(''/GPU:0'', 2)] {1})) 1 = Inr 1
   \<and> reduction_number (projr (DeviceQueues_init 3 2 1 2 [(''/GPU:0'', 2)] {1})) 0 = Inr 0"
proof -
  have "\<not> isl (DeviceQueues_init 3 2 1 2 [(''/GPU:0'', 2)] {1})"
    by code_simp
  then have i: "DeviceQueues_init 3 2 1 2 [(''/GPU:0'', 2)] {1}
      = Inr (projr (DeviceQueues_init 3 2 1 2 [(''/GPU:0'', 2)] {1}))"
    by simp
  have c2: "card {g \<in> {1::nat}. g \<le> 2} = 1" by code_simp
  have c1: "card {g \<in> {1::nat}. g \<le> 1} = 1" by code_simp
  have c0: "card {g \<in> {1::nat}. g \<le> 0} = 0" by code_simp
  show ?thesis
    using reduction_number_counts_le [OF i, of 2] reduction_number_counts_le [OF i, of 1]
      reduction_number_counts_le [OF i, of 0] c2 c1 c0
    by simp
qed

text \<open>
  The claim as stated fails for a global qubit: with two qubits and global set \<open>{0}\<close>,
  no global id is strictly less than 0, and \<^verbatim>\<open>reduction_number(0)\<close> returns 1.
\<close>

theorem reduction_number_global_counterexample:
  "\<not> isl (DeviceQueues_init 2 2 1 1 [(''/GPU:0'', 2)] {0})
   \<and> reduction_number (projr (DeviceQueues_init 2 2 1 1 [(''/GPU:0'', 2)] {0})) 0 = Inr 1
   \<and> card {g \<in> global_qubits_set (projr (DeviceQueues_init 2 2 1 1 [(''/GPU:0'', 2)] {0})). g < 0} = 0"
  by code_simp

section \<open>Adding gates\<close>

text \<open>
  C7, amended. \<^verbatim>\<open>_add\<close> raises the insufficient-qubits error for every gate that is
  neither a measurement gate nor a \<^verbatim>\<open>VariationalLayer\<close> and leaves fewer than \<open>nglobal\<close>
  qubits outside its targets. Two kinds of gate are exempt from the check: a measurement
  gate goes to the base class unchecked, and a \<^verbatim>\<open>VariationalLayer\<close> is prepared and
  goes to the base class unchecked. So a gate is added only if it is of one of the two
  exempt kinds or \<open>N - |targets| \<ge> nglobal\<close>.
\<close>

theorem circuit_add_checks:
  "(kind (objs h r) \<notin> {M, VariationalLayer}
      \<and> int (c_nqubits c) - int (length (target_qubits (objs h r))) < int (c_nglobal c)
     \<longrightarrow> circuit_add base_add prepare c h r = Inl InsufficientQubits)
   \<and> (kind (objs h r) = M \<longrightarrow> circuit_add base_add prepare c h r = base_add c h r)
   \<and> (kind (objs h r) = VariationalLayer
     \<longrightarrow> circuit_add base_add prepare c h r = base_add c (update_object h r prepare) r)
   \<and> (circuit_add base_add prepare c h r = Inr res
     \<longrightarrow> kind (objs h r) \<in> {M, VariationalLayer}
         \<or> int (c_nglobal c) \<le> int (c_nqubits c) - int (length (target_qubits (objs h r))))"
  by (auto simp: circuit_add_def Let_def split: if_splits)

text \<open>
  Two qubits on four devices (\<open>nglobal = 2\<close>): adding \<open>H(0)\<close> fails. With three qubits
  the same gate is added.
\<close>

theorem circuit_add_checks_witness:
  "circuit_add queue_add id (fresh_circuit 2 4 []) (heap_of [unitary ''H'' [0] []]) 0
     = Inl InsufficientQubits
   \<and> \<not> isl (circuit_add queue_add id (fresh_circuit 3 4 []) (heap_of [unitary ''H'' [0] []]) 0)"
proof -
  have k: "kind (objs (heap_of [unitary ''H'' [0] []]) 0) \<notin> {M, VariationalLayer}"
    by (simp add: heap_of_def unitary_def)
  have n: "int (c_nqubits (fresh_circuit 2 4 []))
      - int (length (target_qubits (objs (heap_of [unitary ''H'' [0] []]) 0)))
      < int (c_nglobal (fresh_circuit 2 4 []))"
    by code_simp
  have ok: "\<not> isl (circuit_add queue_add id (fresh_circuit 3 4 []) (heap_of [unitary ''H'' [0] []]) 0)"
    by code_simp
  from circuit_add_checks [of "heap_of [unitary ''H'' [0] []]" 0 "fresh_circuit 2 4 []" queue_add id] k n ok
  show ?thesis by blast
qed

text \<open>
  Measurement gates are not the sole exemption: on two qubits and four devices a
  \<^verbatim>\<open>VariationalLayer\<close> on both qubits leaves \<open>0 < 2\<close> qubits, is not a measurement gate,
  and is added.
\<close>

theorem circuit_add_layer_counterexample:
  "\<not> isl (circuit_add queue_add id (fresh_circuit 2 4 []) (heap_of [variational_layer [0, 1]]) 0)
   \<and> kind (objs (heap_of [variational_layer [0, 1]]) 0) \<noteq> M
   \<and> int (c_nqubits (fresh_circuit 2 4 []))
       - int (length (target_qubits (objs (heap_of [variational_layer [0, 1]]) 0)))
       < int (c_nglobal (fresh_circuit 2 4 []))"
  by code_simp

section \<open>The swap engine\<close>

text \<open>
  C4, amended. \<^verbatim>\<open>_swap\<close> pairs the pieces and rewrites them, and changes nothing else:
  when it returns, the \<^verbatim>\<open>DeviceQueues\<close> object of the circuit (global and local lists,
  global set, reduced maps) is the one it started with, and every field of the circuit
  but \<open>pieces\<close> is unchanged. The roles of the two qubits are not exchanged in the
  partition.
\<close>

theorem circuit_swap_keeps_partition:
  assumes "circuit_swap swap_pieces c global_qubit local_qubit = Inr c'"
  shows "c_queues c' = c_queues c \<and> c' = c\<lparr>pieces := pieces c'\<rparr>"
  using assms
  by (auto simp: circuit_swap_def Let_def split: option.splits if_splits sum.splits)

text \<open>
  Two qubits, two devices, global set \<open>{0}\<close>, pieces 10 and 20, and a piece operator
  that exchanges its two pieces: the swap of qubits 0 and 1 exchanges the pieces and
  keeps the partition.
\<close>

theorem circuit_swap_keeps_partition_witness:
  "c_queues (projr (circuit_swap (\<lambda>a b l n. (b, a))
       ((preset_circuit 2 2 [0] [])\<lparr>pieces := Some [10, 20]\<rparr>) 0 1))
     = c_queues ((preset_circuit 2 2 [0] [])\<lparr>pieces := Some [10, 20]\<rparr>)
   \<and> pieces (projr (circuit_swap (\<lambda>a b l n. (b, a))
       ((preset_circuit 2 2 [0] [])\<lparr>pieces := Some [10, 20]\<rparr>) 0 1)) = Some [20, 10]"
proof -
  let ?c = "(preset_circuit 2 2 [0] [])\<lparr>pieces := Some [10, 20]\<rparr>"
  let ?r = "circuit_swap (\<lambda>a b l n. (b, a)) ?c 0 1"
  have "\<not> isl ?r" by code_simp
  then have r: "?r = Inr (projr ?r)" by simp
  have p: "pieces (projr ?r) = Some [20, 10]" by code_simp
  from circuit_swap_keeps_partition [OF r] p show ?thesis by simp
qed

text \<open>
  The claim as stated fails: after the swap of global qubit 0 with local qubit 1 the
  global list is still \<open>[0]\<close>, the local list still \<open>[1]\<close>, and the reduced maps still
  send global 0 to 0 and local 1 to 0.
\<close>

theorem circuit_swap_roles_counterexample:
  "\<not> isl (circuit_swap (\<lambda>a b l n. (b, a)) ((preset_circuit 2 2 [0] [])\<lparr>pieces := Some [10, 20]\<rparr>) 0 1)
   \<and> map_option global_qubits_list (c_queues (projr (circuit_swap (\<lambda>a b l n. (b, a))
        ((preset_circuit 2 2 [0] [])\<lparr>pieces := Some [10, 20]\<rparr>) 0 1))) = Some [0]
   \<and> map_option local_qubits (c_queues (projr (circuit_swap (\<lambda>a b l n. (b, a))
        ((preset_circuit 2 2 [0] [])\<lparr>pieces := Some [10, 20]\<rparr>) 0 1))) = Some [1]
   \<and> map_option (\<lambda>q. global_qubits_reduced q 0) (c_queues (projr (circuit_swap (\<lambda>a b l n. (b, a))
        ((preset_circuit 2 2 [0] [])\<lparr>pieces := Some [10, 20]\<rparr>) 0 1))) = Some (Some 0)
   \<and> map_option (\<lambda>q. local_qubits_reduced q 1) (c_queues (projr (circuit_swap (\<lambda>a b l n. (b, a))
        ((preset_circuit 2 2 [0] [])\<lparr>pieces := Some [10, 20]\<rparr>) 0 1))) = Some (Some 0)"
  by code_simp

section \<open>C8: waves and special steps\<close>

text \<open>
  C8. For a plan that \<^verbatim>\<open>create\<close> builds from a transformed queue, starting from the empty
  wave list and special queue of a new \<^verbatim>\<open>DeviceQueues\<close> object with at least one device:
  the wave list has exactly as many empty entries as the special queue has entries; the
  walk of \<^verbatim>\<open>_execute\<close> over the waves never finds the iterator empty, hands the special
  entries to the bridge in the order of the special queue, one step per wave, and leaves
  the iterator exhausted; the loop after the walk executes nothing.
\<close>

theorem create_specials_in_step:
  assumes t: "transform fuel E self h Q cnt = Some (Inr s)"
    and c: "create E (queue s) (self_dq s, gates s) = Inr (self', h')"
    and init: "queues self = []" "special_queue self = []" "0 < ndevices self"
  shows "length (filter (\<lambda>w. w = []) (queues self')) = length (special_queue self')
    \<and> (\<exists>steps. walk_waves (queues self') (special_queue self') [] = Inr (steps, [])
          \<and> bridge_steps steps = special_queue self'
          \<and> length steps = length (queues self')
          \<and> drain [] steps = Inr steps
          \<and> execute_waves self' = Inr steps)"
proof -
  from transform_self [OF t] have "self_dq s = self\<lparr>swaps_list := swaps_list (self_dq s)\<rparr>"
    by (simp add: only_swaps_added_def)
  then have "queues (self_dq s) = queues self" "special_queue (self_dq s) = special_queue self"
    "ndevices (self_dq s) = ndevices self"
    by (metis dq.select_convs dq.surjective dq.update_convs)+
  with init have "aligned (self_dq s)" "0 < ndevices (self_dq s)"
    by (simp_all add: aligned_def)
  with c have al: "aligned self'" using create_aligned by blast
  then have len: "length (special_queue self') = length (filter (\<lambda>w. w = []) (queues self'))"
    by (simp add: aligned_def)
  from walk_waves_exact [OF len, of "[]"] obtain steps where
    w: "walk_waves (queues self') (special_queue self') [] = Inr (steps, [])"
    and b: "bridge_steps steps = special_queue self'" and l: "length steps = length (queues self')"
    by auto
  then have "execute_waves self' = Inr steps"
    by (simp add: execute_waves_def)
  with w b l len show ?thesis by auto
qed


text \<open>
  Two qubits, two devices, global set \<open>{0}\<close>, queue \<open>H(0); Callback; H(1)\<close>: the plan has
  five special entries (four global swaps and the callback) and five empty waves, and
  the walk executes the five in order.
\<close>

theorem create_specials_in_step_witness:
  "special_queue (plan_of py_env (transformed py_env (preset_queues 2 2 [0])
       (heap_of [unitary ''H'' [0] [], callback, unitary ''H'' [1] []]) [0, 1, 2]))
     = [GlobalSwap 0 1, SpecialGate 1, GlobalSwap 0 1, GlobalSwap 0 1, GlobalSwap 0 1]
   \<and> length (filter (\<lambda>w. w = []) (queues (plan_of py_env (transformed py_env (preset_queues 2 2 [0])
       (heap_of [unitary ''H'' [0] [], callback, unitary ''H'' [1] []]) [0, 1, 2])))) = 5
   \<and> map_sum id bridge_steps (execute_waves (plan_of py_env (transformed py_env (preset_queues 2 2 [0])
       (heap_of [unitary ''H'' [0] [], callback, unitary ''H'' [1] []]) [0, 1, 2])))
     = Inr [GlobalSwap 0 1, SpecialGate 1, GlobalSwap 0 1, GlobalSwap 0 1, GlobalSwap 0 1]"
proof -
  let ?self = "preset_queues 2 2 [0]"
  let ?h = "heap_of [unitary ''H'' [0] [], callback, unitary ''H'' [1] []]"
  let ?s = "transformed py_env ?self ?h [0, 1, 2]"
  have "case transform (Suc (length [0, 1, 2::nat])) py_env ?self ?h [0, 1, 2] None of
          Some (Inr _) \<Rightarrow> True | _ \<Rightarrow> False"
    by code_simp
  then have t: "transform (Suc (length [0, 1, 2::nat])) py_env ?self ?h [0, 1, 2] None = Some (Inr ?s)"
    by (rule transformed_eq)
  have "\<not> isl (create py_env (queue ?s) (self_dq ?s, gates ?s))"
    by code_simp
  then have c: "create py_env (queue ?s) (self_dq ?s, gates ?s)
      = Inr (plan_of py_env ?s, snd (projr (create py_env (queue ?s) (self_dq ?s, gates ?s))))"
    by (rule plan_of_eq)
  have i: "queues ?self = []" "special_queue ?self = []" "0 < ndevices ?self"
    by code_simp+
  have sq: "special_queue (plan_of py_env ?s)
     = [GlobalSwap 0 1, SpecialGate 1, GlobalSwap 0 1, GlobalSwap 0 1, GlobalSwap 0 1]"
    by code_simp
  from create_specials_in_step [OF t c i] sq show ?thesis
    by auto
qed


section \<open>C5: global controls select the pieces\<close>





section \<open>C6: the initial global qubits\<close>






section \<open>C10: what the transformer mutates\<close>




section \<open>C2: the transformed queue\<close>

text \<open>
  C2. For every input queue on which \<^verbatim>\<open>transform\<close> returns: every gate of the returned
  queue that is not a SWAP, read in the store as \<^verbatim>\<open>transform\<close> leaves it, has no target in
  the global set of the \<^verbatim>\<open>DeviceQueues\<close> object; that set is still the one the object was
  built with; and \<^verbatim>\<open>create\<close> on the returned queue does not raise "Only SWAP gates are
  supported for global qubits". Gate objects that occur more than once in the input do
  not break this.
\<close>

theorem transformed_queue_avoids_globals:
  assumes "transform fuel E self h Q cnt = Some (Inr s)"
  shows "(\<forall>r \<in> set (queue s). kind (objs (gates s) r) \<noteq> SWAP \<longrightarrow>
            set (target_qubits (objs (gates s) r)) \<inter> global_qubits_set self = {})
    \<and> global_qubits_set (self_dq s) = global_qubits_set self
    \<and> create E (queue s) (self_dq s, gates s) \<noteq> Inl OnlySwapSupported"
proof -
  have inv: "\<forall>r \<in> set (queue s). swap_or_local (global_qubits_set self) (objs (gates s) r)"
    using assms by (rule transform_inv)
  have g: "global_qubits_set (self_dq s) = global_qubits_set self"
    using transform_self [OF assms] by (rule only_swaps_added_global_set)
  have "create E (queue s) (self_dq s, gates s) \<noteq> Inl OnlySwapSupported"
    by (rule create_only_swap_error) (simp add: g inv)
  with inv g show ?thesis
    by (auto simp: swap_or_local_def)
qed

text \<open>
  Two qubits, two devices, global set \<open>{0}\<close>, queue \<open>H(0); H(1)\<close>: the transformed queue
  is \<open>H(1); SWAP(0,1); H(1); SWAP(0,1)\<close>, where the first gate is the user's second gate
  and the third one the user's first gate, rewritten.
\<close>

theorem transformed_queue_avoids_globals_witness:
  "map (\<lambda>r. (kind (objs (gates (transformed py_env (preset_queues 2 2 [0])
                 (heap_of [unitary ''H'' [0] [], unitary ''H'' [1] []]) [0, 1])) r),
              target_qubits (objs (gates (transformed py_env (preset_queues 2 2 [0])
                 (heap_of [unitary ''H'' [0] [], unitary ''H'' [1] []]) [0, 1])) r)))
       (queue (transformed py_env (preset_queues 2 2 [0])
                 (heap_of [unitary ''H'' [0] [], unitary ''H'' [1] []]) [0, 1]))
     = [(Unitary ''H'', [1]), (SWAP, [0, 1]), (Unitary ''H'', [1]), (SWAP, [0, 1])]
   \<and> global_qubits_set (self_dq (transformed py_env (preset_queues 2 2 [0])
                 (heap_of [unitary ''H'' [0] [], unitary ''H'' [1] []]) [0, 1])) = {0}
   \<and> create py_env (queue (transformed py_env (preset_queues 2 2 [0])
                 (heap_of [unitary ''H'' [0] [], unitary ''H'' [1] []]) [0, 1]))
        (self_dq (transformed py_env (preset_queues 2 2 [0])
                 (heap_of [unitary ''H'' [0] [], unitary ''H'' [1] []]) [0, 1]),
         gates (transformed py_env (preset_queues 2 2 [0])
                 (heap_of [unitary ''H'' [0] [], unitary ''H'' [1] []]) [0, 1]))
       \<noteq> Inl OnlySwapSupported"
proof -
  let ?self = "preset_queues 2 2 [0]"
  let ?h = "heap_of [unitary ''H'' [0] [], unitary ''H'' [1] []]"
  let ?s = "transformed py_env ?self ?h [0, 1]"
  have "case transform (Suc (length [0, 1::nat])) py_env ?self ?h [0, 1] None of
          Some (Inr _) \<Rightarrow> True | _ \<Rightarrow> False"
    by code_simp
  then have t: "transform (Suc (length [0, 1::nat])) py_env ?self ?h [0, 1] None = Some (Inr ?s)"
    by (rule transformed_eq)
  have g: "global_qubits_set ?self = {0}" by code_simp
  have m: "map (\<lambda>r. (kind (objs (gates ?s) r), target_qubits (objs (gates ?s) r))) (queue ?s)
     = [(Unitary ''H'', [1]), (SWAP, [0, 1]), (Unitary ''H'', [1]), (SWAP, [0, 1])]"
    by code_simp
  from transformed_queue_avoids_globals [OF t] g m show ?thesis by simp
qed


section \<open>C9: termination of the transformer\<close>

text \<open>
  C9, amended. On every input queue whose gate objects are pairwise distinct (and exist
  in the store), \<^verbatim>\<open>transform\<close> returns, with a result or an exception, within \<open>|Q|\<close>
  recursive calls of \<^verbatim>\<open>_transform\<close> after the first call: fuel \<open>|Q| + 1\<close> is enough, and more
  fuel gives the same answer. The reason is the one the claim gives: after a
  reconfiguration the head of the remaining queue is accepted by the next pass, so the
  remaining queue of every recursive call is strictly shorter after its pass.
\<close>

theorem transform_terminates:
  assumes d: "distinct Q" and v: "\<forall>r \<in> set Q. r < next_ref h" and it: "iterates_sets E"
  shows "(\<exists>res. transform (Suc (length Q)) E self h Q cnt = Some res
            \<and> (\<forall>k. transform (Suc (length Q) + k) E self h Q cnt = Some res))
    \<and> (\<forall>rem s s1 nrq qmap s2 s4 nrq'.
          distinct rem \<and> (\<forall>r \<in> set rem. r < next_ref (gates s))
          \<and> accept_loop E rem [] s = Inr (s1, nrq) \<and> nrq \<noteq> []
          \<and> find_swaps E nrq s1 = Inr (qmap, s2)
          \<and> accept_loop E nrq [] (s2\<lparr>gates := remap_loop qmap nrq (gates s2)\<rparr>) = Inr (s4, nrq')
          \<longrightarrow> length nrq' < length nrq)"
proof
  show "\<exists>res. transform (Suc (length Q)) E self h Q cnt = Some res
            \<and> (\<forall>k. transform (Suc (length Q) + k) E self h Q cnt = Some res)"
  proof (cases "case cnt of None \<Rightarrow> count h Q (nqubits self) | Some c \<Rightarrow> Inr c")
    case (Inl e)
    then show ?thesis by (simp add: transform_def)
  next
    case (Inr c)
    let ?s = "\<lparr>self_dq = self, gates = h, queue = [], counter = c\<rparr>"
    have "transform_rec (Suc (length Q)) E Q ?s \<noteq> None"
      using it d by (rule transform_rec_returns) (simp add: v)
    then obtain x where x: "transform_rec (Suc (length Q)) E Q ?s = Some x" by auto
    then have more: "transform_rec (Suc (length Q) + k) E Q ?s = Some x" for k
      by (rule transform_rec_more_fuel)
    show ?thesis
      using Inr x more
      by (cases x) (simp_all add: transform_def split: prod.splits)
  qed
  show "\<forall>rem s s1 nrq qmap s2 s4 nrq'.
          distinct rem \<and> (\<forall>r \<in> set rem. r < next_ref (gates s))
          \<and> accept_loop E rem [] s = Inr (s1, nrq) \<and> nrq \<noteq> []
          \<and> find_swaps E nrq s1 = Inr (qmap, s2)
          \<and> accept_loop E nrq [] (s2\<lparr>gates := remap_loop qmap nrq (gates s2)\<rparr>) = Inr (s4, nrq')
          \<longrightarrow> length nrq' < length nrq"
    using it by (blast intro: recursive_call_accepts_head)
qed

text \<open>
  Two qubits, two devices, global set \<open>{0}\<close>, queue \<open>H(0); H(1)\<close> of two distinct objects:
  three units of fuel are enough, and ten give the same answer.
\<close>

theorem transform_terminates_witness:
  "transform (Suc (length [0, 1 :: nat])) py_env (preset_queues 2 2 [0])
       (heap_of [unitary ''H'' [0] [], unitary ''H'' [1] []]) [0, 1] None \<noteq> None
   \<and> transform (Suc (length [0, 1 :: nat]) + 7) py_env (preset_queues 2 2 [0])
       (heap_of [unitary ''H'' [0] [], unitary ''H'' [1] []]) [0, 1] None
     = transform (Suc (length [0, 1 :: nat])) py_env (preset_queues 2 2 [0])
       (heap_of [unitary ''H'' [0] [], unitary ''H'' [1] []]) [0, 1] None"
proof -
  have d: "distinct [0, 1 :: nat]" by simp
  have v: "\<forall>r \<in> set [0, 1 :: nat]. r < next_ref (heap_of [unitary ''H'' [0] [], unitary ''H'' [1] []])"
    by (simp add: heap_of_def)
  from transform_terminates [OF d v py_env_iterates_sets, of "preset_queues 2 2 [0]" None]
  obtain res where
    a: "transform (Suc (length [0, 1 :: nat])) py_env (preset_queues 2 2 [0])
       (heap_of [unitary ''H'' [0] [], unitary ''H'' [1] []]) [0, 1] None = Some res"
    and b: "transform (Suc (length [0, 1 :: nat]) + 7) py_env (preset_queues 2 2 [0])
       (heap_of [unitary ''H'' [0] [], unitary ''H'' [1] []]) [0, 1] None = Some res"
    by blast
  show ?thesis unfolding a b by simp
qed

text \<open>
  The claim as stated fails for a queue that holds the same gate object twice: with the
  global set \<open>{0}\<close> and the queue \<open>[g, g]\<close> for one object \<open>g = H(0)\<close>, the rewriting
  loop maps the targets of \<open>g\<close> twice, back to qubit 0, no gate is ever accepted, and the
  recursion does not end within three calls, nor within a thousand, for \<open>|Q| = 2\<close>.
\<close>

theorem transform_repeated_gate_counterexample:
  "length [0, 0 :: nat] = 2
   \<and> transform 3 py_env (preset_queues 2 2 [0]) (heap_of [unitary ''H'' [0] []]) [0, 0] None = None
   \<and> transform 1000 py_env (preset_queues 2 2 [0]) (heap_of [unitary ''H'' [0] []]) [0, 0] None = None"
  by (simp add: repeated_gate_never_returns)


end
